theory Spec2Isabelle
  imports Main "HOL-Library.Sublist"
begin

section \<open>Data model of \<^verbatim>\<open>lib/game/Game.ts\<close>\<close>

text \<open>
  The orchestrator drives objects it does not define: Systems, Components, GameObjects,
  Scenes, a Ticker, the observer wiring and an event emitter. They enter the model as
  follows.
  \<^item> A System or Component is a reference to an object: its object identity \<open>ref\<close> (what
    \<^verbatim>\<open>===\<close> compares) together with what \<^verbatim>\<open>Game.ts\<close> only reads of the object, its
    \<^verbatim>\<open>constructor\<close> and the classes above it (what \<^verbatim>\<open>instanceof\<close> walks), its names
    and its optional lifecycle hooks.
  \<^item> The \<^verbatim>\<open>started\<close> flag is written by the dispatcher on the object itself, and one
    object can be reached twice (a scene loaded both as the primary and as a secondary
    scene, a GameObject listed twice, a System removed and added again). The flags are
    therefore kept in a store, a map from object identities to flags, that the game state
    carries: \<^verbatim>\<open>obj.started\<close> is \<open>objStarted g (ref obj)\<close>.
  \<^item> A hook is optional (\<^verbatim>\<open>obj.h && obj.h()\<close>): \<open>hooks obj h = None\<close> when the object has
    no such method, otherwise the way the call ends, \<open>Returns\<close> or \<open>Throws\<close>. Hook bodies
    are opaque: they do not call back into the game.
  \<^item> Every call that leaves \<^verbatim>\<open>Game.ts\<close> (a hook, the console, the ticker, the observer
    wiring, the emitter, \<^verbatim>\<open>scene.destroy\<close>) is appended to the \<open>trace\<close> of the game, so
    that the order of the calls can be stated.
  \<^item> An exception is a value: a function that can throw returns \<open>exn option\<close> (\<open>None\<close>:
    returned normally) or \<open>exn + 'a\<close> next to the state reached when it stopped.
\<close>

type_synonym cls = nat

definition SystemClass :: cls where
  "SystemClass = 0"

definition ComponentClass :: cls where
  "ComponentClass = 1"

datatype hook = Init | Awake | Start | Update | LateUpdate | OnPause | OnResume | Destroy

text \<open>
  The hooks are finitely many, so two objects can be compared field by field, their hook
  tables included.
\<close>

instantiation hook :: enum
begin

definition enum_hook :: "hook list" where
  "enum_hook = [Init, Awake, Start, Update, LateUpdate, OnPause, OnResume, Destroy]"

definition enum_all_hook :: "(hook \<Rightarrow> bool) \<Rightarrow> bool" where
  "enum_all_hook P =
     (P Init \<and> P Awake \<and> P Start \<and> P Update \<and> P LateUpdate \<and> P OnPause \<and> P OnResume
      \<and> P Destroy)"

definition enum_ex_hook :: "(hook \<Rightarrow> bool) \<Rightarrow> bool" where
  "enum_ex_hook P =
     (P Init \<or> P Awake \<or> P Start \<or> P Update \<or> P LateUpdate \<or> P OnPause \<or> P OnResume
      \<or> P Destroy)"

instance
proof
  show univ: "(UNIV :: hook set) = set enum_class.enum"
    by (auto simp: enum_hook_def intro: hook.exhaust)
  show "distinct (enum_class.enum :: hook list)"
    by (simp add: enum_hook_def)
  show "enum_class.enum_all P = Ball (UNIV :: hook set) P" for P
    unfolding univ by (simp add: enum_hook_def enum_all_hook_def)
  show "enum_class.enum_ex P = Bex (UNIV :: hook set) P" for P
    unfolding univ by (simp add: enum_hook_def enum_ex_hook_def)
qed

end

datatype outcome = Returns | Throws

datatype exn = HookError nat hook | TypeError string

datatype LOAD_SCENE_MODE = SINGLE | MULTI_CANVAS

type_synonym params = "(string \<times> string) list"

type_synonym frame = nat

text \<open>
  What \<^verbatim>\<open>Game.ts\<close> reads of a System or Component (\<^verbatim>\<open>../core/System\<close> and
  \<^verbatim>\<open>../core/Component\<close> are not part of it): \<open>ctor\<close> is \<^verbatim>\<open>obj.constructor\<close>, \<open>bases\<close> the
  classes it extends (\<open>SystemClass\<close> for a System, \<open>ComponentClass\<close> for a Component, among
  them), \<open>name\<close> is \<^verbatim>\<open>obj.name\<close>, \<open>systemName\<close> and \<open>componentName\<close> are the static names of
  the constructor. A System has the back-reference \<^verbatim>\<open>game\<close> besides, which \<^verbatim>\<open>addSystem\<close>
  writes, here the identity of the game, \<open>None\<close> while unset. The \<^verbatim>\<open>started\<close> flag of the
  object is not here but in the store \<open>objStarted\<close> of the game state, under \<open>ref\<close>.
\<close>

record lifecycle =
  ref :: nat
  ctor :: cls
  bases :: "cls list"
  name :: string
  systemName :: string
  componentName :: string
  hooks :: "hook \<rightharpoonup> outcome"

type_synonym component = lifecycle

record system = lifecycle +
  game :: "nat option"

record gameObject =
  goName :: string
  components :: "component list"

record scene =
  sceneName :: string
  gameObjects :: "gameObject list"

text \<open>
  Modelled from the spec: the observer wiring (\<^verbatim>\<open>../core/observer\<close>), \<^verbatim>\<open>Scene.destroy\<close> and the
  emitter the game extends are external; the core "only needs to invoke" them. Each call
  is one event of the trace, with its arguments, and returns.
\<close>

datatype event =
    Invoke nat hook
  | ConsoleError string exn
  | ConsoleWarn string
  | TickerAdd
  | TickerStart
  | TickerPause
  | SetSystemObserver nat cls
  | InitObserver cls
  | RemoveAllListeners
  | SceneDestroy scene
  | Emit string scene LOAD_SCENE_MODE params

text \<open>
  Modelled from the spec: the Ticker (\<^verbatim>\<open>./Ticker\<close>) is an external collaborator of which the
  core needs "register one callback, start, pause"; the three calls are trace events and
  the object keeps the options it was built with.
\<close>

record Ticker =
  tickerAutoStart :: bool
  tickerFrameRate :: nat

text \<open>
  The fields of the class: \<open>scene\<close> is \<^verbatim>\<open>_scene\<close> behind its getter and setter, \<open>gameStarted\<close>
  is \<^verbatim>\<open>started\<close>; \<open>None\<close> is \<^verbatim>\<open>undefined\<close> or \<^verbatim>\<open>null\<close>. \<open>gameId\<close> is the identity of the
  object (\<^verbatim>\<open>this\<close>), \<open>trace\<close> the calls it has made so far. \<open>objStarted\<close> is the store of
  the \<^verbatim>\<open>started\<close> flags of the Systems and Components, by object identity.
\<close>

record Game =
  gameId :: nat
  scene :: "scene option"
  canvas :: "nat option"
  playing :: bool
  gameStarted :: bool
  multiScenes :: "scene list option"
  ticker :: "Ticker option"
  systems :: "system list"
  trace :: "event list"
  objStarted :: "nat \<Rightarrow> bool"

record GameParams =
  autoStart :: "bool option"
  frameRate :: "nat option"
  initialSystems :: "system list option"
  needScene :: "bool option"

record LoadSceneParams =
  lsScene :: "scene option"
  lsMode :: "LOAD_SCENE_MODE option"
  lsParams :: "params option"

text \<open>
  The argument of \<^verbatim>\<open>addSystem\<close>: a function (a constructor), given by what
  \<^verbatim>\<open>new S(obj)\<close> does (it throws, or it builds an instance), or any other value.
\<close>

datatype addArg = Function "exn + system" | Object system

text \<open>
  The argument of \<^verbatim>\<open>removeSystem\<close>: a string, a function, an object, or \<^verbatim>\<open>undefined\<close>.
\<close>

datatype removeArg = Str string | Fn cls | Obj system | Undefined

datatype getArg = Named string | Class cls

section \<open>Lifecycle dispatcher\<close>

text \<open>\<^verbatim>\<open>obj instanceof C\<close>: the prototype of \<open>C\<close> is on the prototype chain of \<open>obj\<close>.\<close>

definition instanceOf :: "'a lifecycle_scheme \<Rightarrow> cls \<Rightarrow> bool" where
  "instanceOf obj C = (C \<in> set (ctor obj # bases obj))"

text \<open>\<^verbatim>\<open>obj.h && obj.h()\<close>: nothing when the hook is absent; the call is traced.\<close>

definition invoke :: "'a lifecycle_scheme \<Rightarrow> hook \<Rightarrow> event list \<Rightarrow> exn option \<times> event list" where
  "invoke obj h tr =
     (case hooks obj h of
        None \<Rightarrow> (None, tr)
      | Some Returns \<Rightarrow> (None, tr @ [Invoke (ref obj) h])
      | Some Throws \<Rightarrow> (Some (HookError (ref obj) h), tr @ [Invoke (ref obj) h]))"

text \<open>\<^verbatim>\<open>try { obj.h && obj.h() } catch (e) { console.error(msg, e) }\<close>\<close>

definition guarded :: "'a lifecycle_scheme \<Rightarrow> hook \<Rightarrow> string \<Rightarrow> event list \<Rightarrow> event list" where
  "guarded obj h msg tr =
     (case invoke obj h tr of
        (None, t) \<Rightarrow> t
      | (Some e, t) \<Rightarrow> t @ [ConsoleError msg e])"

text \<open>
  \<^verbatim>\<open>triggerStart\<close> reads and writes \<^verbatim>\<open>obj.started\<close>: it takes the store \<open>st\<close> of the flags and
  returns it with the flag of the object set.
\<close>

definition triggerStart :: "'a lifecycle_scheme \<Rightarrow> (nat \<Rightarrow> bool) \<Rightarrow> event list
    \<Rightarrow> (nat \<Rightarrow> bool) \<times> event list" where
  "triggerStart obj st tr =
     (if \<not> instanceOf obj SystemClass \<and> \<not> instanceOf obj ComponentClass then (st, tr)
      else if st (ref obj) then (st, tr)
      else (st(ref obj := True),
            guarded obj Start
              (if instanceOf obj ComponentClass then componentName obj @ '' start error''
               else systemName obj @ '' start error'') tr))"

definition getAllGameObjects :: "Game \<Rightarrow> exn + gameObject list" where
  "getAllGameObjects g =
     (let mainSceneGameObjects = (case scene g of None \<Rightarrow> [] | Some s \<Rightarrow> gameObjects s) in
      case multiScenes g of
        None \<Rightarrow> Inl (TypeError ''Cannot read properties of null (reading map)'')
      | Some ms \<Rightarrow>
          (let gameObjectsArray = map gameObjects ms;
               otherSceneGameObjects = foldl (\<lambda>acc gos. acc @ gos) [] gameObjectsArray
           in Inr (mainSceneGameObjects @ otherSceneGameObjects)))"

text \<open>
  The first pass of \<^verbatim>\<open>gameObjectLoop\<close> and of the ticker callback: \<^verbatim>\<open>triggerStart\<close>, then the
  guarded \<^verbatim>\<open>update\<close>; \<open>msg\<close> builds the text of the error report. The pass returns the store
  as it leaves it (the \<^verbatim>\<open>started\<close> flags it has set).
\<close>

fun updatePass :: "('a lifecycle_scheme \<Rightarrow> string) \<Rightarrow> 'a lifecycle_scheme list
    \<Rightarrow> (nat \<Rightarrow> bool) \<Rightarrow> event list \<Rightarrow> (nat \<Rightarrow> bool) \<times> event list" where
  "updatePass msg [] st tr = (st, tr)"
| "updatePass msg (obj # objs) st tr =
     (case triggerStart obj st tr of
        (st1, tr1) \<Rightarrow> updatePass msg objs st1 (guarded obj Update (msg obj) tr1))"

text \<open>A pass that calls one guarded hook on every object (lateUpdate, onPause, onResume).\<close>

fun hookPass :: "hook \<Rightarrow> ('a lifecycle_scheme \<Rightarrow> string) \<Rightarrow> 'a lifecycle_scheme list \<Rightarrow> event list
    \<Rightarrow> event list" where
  "hookPass h msg [] tr = tr"
| "hookPass h msg (obj # objs) tr = hookPass h msg objs (guarded obj h (msg obj) tr)"

text \<open>The two loops of \<^verbatim>\<open>gameObjectLoop\<close>, each over every Component of every GameObject.\<close>

fun updateGameObjects :: "gameObject list \<Rightarrow> (nat \<Rightarrow> bool) \<Rightarrow> event list
    \<Rightarrow> (nat \<Rightarrow> bool) \<times> event list" where
  "updateGameObjects [] st tr = (st, tr)"
| "updateGameObjects (go # gos) st tr =
     (case updatePass
             (\<lambda>c. ''gameObject: '' @ goName go @ '' '' @ name c @ '' update error'')
             (components go) st tr of
        (st1, tr1) \<Rightarrow> updateGameObjects gos st1 tr1)"

fun lateUpdateGameObjects :: "gameObject list \<Rightarrow> event list \<Rightarrow> event list" where
  "lateUpdateGameObjects [] tr = tr"
| "lateUpdateGameObjects (go # gos) tr =
     lateUpdateGameObjects gos
       (hookPass LateUpdate
          (\<lambda>c. ''gameObject: '' @ goName go @ '' '' @ name c @ '' lateUpdate error'')
          (components go) tr)"

definition gameObjectLoop :: "frame \<Rightarrow> gameObject list \<Rightarrow> (nat \<Rightarrow> bool) \<Rightarrow> event list
    \<Rightarrow> (nat \<Rightarrow> bool) \<times> event list" where
  "gameObjectLoop e gos st tr =
     (case updateGameObjects gos st tr of
        (st1, tr1) \<Rightarrow> (st1, lateUpdateGameObjects gos tr1))"

fun gameObjectResume :: "gameObject list \<Rightarrow> event list \<Rightarrow> event list" where
  "gameObjectResume [] tr = tr"
| "gameObjectResume (go # gos) tr =
     gameObjectResume gos
       (hookPass OnResume
          (\<lambda>c. ''gameObject: '' @ goName go @ '', '' @ name c @ '', onResume error'')
          (components go) tr)"

text \<open>The report of a failed \<^verbatim>\<open>onPause\<close> reads "onResume error" in the source (line 118).\<close>

fun gameObjectPause :: "gameObject list \<Rightarrow> event list \<Rightarrow> event list" where
  "gameObjectPause [] tr = tr"
| "gameObjectPause (go # gos) tr =
     gameObjectPause gos
       (hookPass OnPause
          (\<lambda>c. ''gameObject: '' @ goName go @ '', '' @ name c @ '', onResume error'')
          (components go) tr)"

section \<open>The Game orchestrator\<close>

text \<open>\<^verbatim>\<open>Array.prototype.findIndex\<close>: the first index whose element passes, or \<open>-1\<close>.\<close>

fun findIndex :: "('a \<Rightarrow> bool) \<Rightarrow> 'a list \<Rightarrow> int" where
  "findIndex P [] = - 1"
| "findIndex P (x # xs) =
     (if P x then 0
      else (let i = findIndex P xs in if i = - 1 then - 1 else i + 1))"

text \<open>\<^verbatim>\<open>xs.splice(i, 1)\<close>\<close>

definition spliceOne :: "nat \<Rightarrow> 'a list \<Rightarrow> 'a list" where
  "spliceOne i xs = take i xs @ drop (Suc i) xs"

text \<open>A call that leaves the orchestrator, appended to the trace.\<close>

definition log :: "event \<Rightarrow> Game \<Rightarrow> Game" where
  "log ev g = g\<lparr>trace := trace g @ [ev]\<rparr>"

text \<open>
  \<^verbatim>\<open>addSystem\<close> returns the instance, \<^verbatim>\<open>undefined\<close> (\<open>Inr None\<close>) when it rejects, or throws
  (\<open>Inl\<close>): \<^verbatim>\<open>new S(obj)\<close> and \<^verbatim>\<open>init\<close> are called outside the \<^verbatim>\<open>try\<close> that guards \<^verbatim>\<open>awake\<close>.
\<close>

definition addSystem :: "addArg \<Rightarrow> Game \<Rightarrow> (exn + system option) \<times> Game" where
  "addSystem S g =
     (case (case S of
              Function made \<Rightarrow> (case made of Inl e \<Rightarrow> Inl (Some e) | Inr s \<Rightarrow> Inr s)
            | Object s \<Rightarrow> if instanceOf s SystemClass then Inr s else Inl None) of
        Inl (Some e) \<Rightarrow> (Inl e, g)
      | Inl None \<Rightarrow> (Inr None, log (ConsoleWarn ''can only add System'') g)
      | Inr system0 \<Rightarrow>
          (case find (\<lambda>item. ctor item = ctor system0) (systems g) of
             Some hasTheSystem \<Rightarrow>
               (Inr None, log (ConsoleWarn (systemName system0 @ '' System has been added'')) g)
           | None \<Rightarrow>
             (let system1 = system0\<lparr>game := Some (gameId g)\<rparr> in
              case invoke system1 Init (trace g) of
                (Some e, tr1) \<Rightarrow> (Inl e, g\<lparr>trace := tr1\<rparr>)
              | (None, tr1) \<Rightarrow>
                  (let tr2 = tr1 @ [SetSystemObserver (ref system1) (ctor system1),
                                    InitObserver (ctor system1)];
                       tr3 = guarded system1 Awake (systemName system1 @ '' awake error'') tr2
                   in (Inr (Some system1),
                       g\<lparr>systems := systems g @ [system1], trace := tr3\<rparr>)))))"

text \<open>\<^verbatim>\<open>!system\<close>: \<^verbatim>\<open>undefined\<close> and the empty string are falsy, a function or an object never.\<close>

fun falsy :: "removeArg \<Rightarrow> bool" where
  "falsy Undefined = True"
| "falsy (Str n) = (n = [])"
| "falsy (Fn c) = False"
| "falsy (Obj obj) = False"

definition removeSystem :: "removeArg \<Rightarrow> Game \<Rightarrow> exn option \<times> Game" where
  "removeSystem system0 g =
     (if falsy system0 then (None, g)
      else
        (let index =
           (case system0 of
              Str n \<Rightarrow> findIndex (\<lambda>s. name s = n) (systems g)
            | Fn c \<Rightarrow> findIndex (\<lambda>s. ctor s = c) (systems g)
            | Obj obj \<Rightarrow>
                if instanceOf obj SystemClass
                then findIndex (\<lambda>s. ref s = ref obj) (systems g) else - 1
            | Undefined \<Rightarrow> - 1)
         in if index > - 1
            then (case invoke (systems g ! nat index) Destroy (trace g) of
                    (Some e, tr1) \<Rightarrow> (Some e, g\<lparr>trace := tr1\<rparr>)
                  | (None, tr1) \<Rightarrow>
                      (None, g\<lparr>systems := spliceOne (nat index) (systems g), trace := tr1\<rparr>))
            else (None, g)))"

definition getSystem :: "getArg \<Rightarrow> Game \<Rightarrow> system option" where
  "getSystem S g =
     find (\<lambda>system0. case S of Named n \<Rightarrow> name system0 = n | Class c \<Rightarrow> instanceOf system0 c)
       (systems g)"

definition triggerPause :: "Game \<Rightarrow> exn option \<times> Game" where
  "triggerPause g =
     (case getAllGameObjects g of
        Inl x \<Rightarrow> (Some x, g)
      | Inr gos \<Rightarrow>
          (None, g\<lparr>trace := hookPass OnPause (\<lambda>s. systemName s @ '', onPause error'')
                               (systems g) (gameObjectPause gos (trace g))\<rparr>))"

definition triggerResume :: "Game \<Rightarrow> exn option \<times> Game" where
  "triggerResume g =
     (case getAllGameObjects g of
        Inl x \<Rightarrow> (Some x, g)
      | Inr gos \<Rightarrow>
          (None, g\<lparr>trace := hookPass OnResume (\<lambda>s. systemName s @ '', onResume error'')
                               (systems g) (gameObjectResume gos (trace g))\<rparr>))"

definition pause :: "Game \<Rightarrow> exn option \<times> Game" where
  "pause g =
     (if \<not> playing g then (None, g)
      else (let g1 = g\<lparr>playing := False\<rparr> in
            case ticker g1 of
              None \<Rightarrow> (Some (TypeError ''Cannot read properties of null (reading pause)''), g1)
            | Some t \<Rightarrow> triggerPause (log TickerPause g1)))"

definition start :: "Game \<Rightarrow> exn option \<times> Game" where
  "start g =
     (if playing g then (None, g)
      else (case ticker g of
              None \<Rightarrow> (Some (TypeError ''Cannot read properties of null (reading start)''), g)
            | Some t \<Rightarrow> (None, (log TickerStart g)\<lparr>playing := True, gameStarted := True\<rparr>)))"

definition resume :: "Game \<Rightarrow> exn option \<times> Game" where
  "resume g =
     (if playing g then (None, g)
      else (case ticker g of
              None \<Rightarrow> (Some (TypeError ''Cannot read properties of null (reading start)''), g)
            | Some t \<Rightarrow>
                (case triggerResume (log TickerStart g) of
                   (Some e, g1) \<Rightarrow> (Some e, g1)
                 | (None, g1) \<Rightarrow> (None, g1\<lparr>playing := True\<rparr>))))"

text \<open>The callback that \<^verbatim>\<open>initTicker\<close> registers with the ticker: one frame tick.\<close>

definition tick :: "frame \<Rightarrow> Game \<Rightarrow> exn option \<times> Game" where
  "tick e g =
     (case (case scene g of
              None \<Rightarrow> Inr g
            | Some s \<Rightarrow>
                (case getAllGameObjects g of
                   Inl x \<Rightarrow> Inl x
                 | Inr gos \<Rightarrow>
                     (case gameObjectLoop e gos (objStarted g) (trace g) of
                        (st, tr) \<Rightarrow> Inr (g\<lparr>trace := tr, objStarted := st\<rparr>)))) of
        Inl x \<Rightarrow> (Some x, g)
      | Inr g1 \<Rightarrow>
          (case updatePass (\<lambda>s. systemName s @ '' update error'') (systems g1)
                  (objStarted g1) (trace g1) of
             (st, tr1) \<Rightarrow>
               (None, g1\<lparr>trace := hookPass LateUpdate (\<lambda>s. systemName s @ '' lateUpdate error'')
                                    (systems g1) tr1,
                         objStarted := st\<rparr>)))"

definition initTicker :: "Game \<Rightarrow> Game" where
  "initTicker g = log TickerAdd g"

text \<open>The loop of \<^verbatim>\<open>destroySystems\<close> over the copy \<^verbatim>\<open>[...this.systems]\<close>.\<close>

fun removeEach :: "system list \<Rightarrow> Game \<Rightarrow> exn option \<times> Game" where
  "removeEach [] g = (None, g)"
| "removeEach (s # rest) g =
     (case removeSystem (Obj s) g of
        (Some e, g1) \<Rightarrow> (Some e, g1)
      | (None, g1) \<Rightarrow> removeEach rest g1)"

definition destroySystems :: "Game \<Rightarrow> exn option \<times> Game" where
  "destroySystems g =
     (case removeEach (systems g) g of
        (Some e, g1) \<Rightarrow> (Some e, g1)
      | (None, g1) \<Rightarrow> (None, g1\<lparr>systems := []\<rparr>))"

definition destroy :: "Game \<Rightarrow> exn option \<times> Game" where
  "destroy g =
     (case pause (log RemoveAllListeners g) of
        (Some e, g1) \<Rightarrow> (Some e, g1)
      | (None, g1) \<Rightarrow>
          (case scene g1 of
             None \<Rightarrow> (Some (TypeError ''Cannot read properties of null (reading destroy)''), g1)
           | Some s \<Rightarrow>
               (case destroySystems (log (SceneDestroy s) g1) of
                  (Some e, g2) \<Rightarrow> (Some e, g2)
                | (None, g2) \<Rightarrow>
                    (None, g2\<lparr>ticker := None, scene := None, canvas := None,
                              multiScenes := None\<rparr>))))"

definition loadScene :: "LoadSceneParams \<Rightarrow> Game \<Rightarrow> exn option \<times> Game" where
  "loadScene p g =
     (case lsScene p of
        None \<Rightarrow> (None, g)
      | Some sc \<Rightarrow>
          (let mode = (case lsMode p of None \<Rightarrow> SINGLE | Some m \<Rightarrow> m);
               params = (case lsParams p of None \<Rightarrow> [] | Some ps \<Rightarrow> ps)
           in case mode of
                SINGLE \<Rightarrow>
                  (None, log (Emit ''sceneChanged'' sc mode params) (g\<lparr>scene := Some sc\<rparr>))
              | MULTI_CANVAS \<Rightarrow>
                  (case multiScenes g of
                     None \<Rightarrow> (Some (TypeError ''Cannot read properties of null (reading push)''), g)
                   | Some ms \<Rightarrow>
                       (None, log (Emit ''sceneChanged'' sc mode params)
                                (g\<lparr>multiScenes := Some (ms @ [sc])\<rparr>)))))"

text \<open>The loop of the constructor over \<^verbatim>\<open>systems\<close>.\<close>

fun addEach :: "system list \<Rightarrow> Game \<Rightarrow> exn option \<times> Game" where
  "addEach [] g = (None, g)"
| "addEach (s # rest) g =
     (case addSystem (Object s) g of
        (Inl e, g1) \<Rightarrow> (Some e, g1)
      | (Inr r, g1) \<Rightarrow> addEach rest g1)"

text \<open>
  \<^verbatim>\<open>new Game(params)\<close>; \<open>this\<close> is the identity of the object under construction, \<open>st\<close>
  the \<^verbatim>\<open>started\<close> flags of the objects that exist then (the constructor touches none).
  Modelled from the spec: \<^verbatim>\<open>new Scene('scene')\<close> (\<^verbatim>\<open>./Scene\<close> is external) is the default scene,
  here a scene of that name without GameObjects of its own. The constructor hands the Scene
  itself to \<^verbatim>\<open>loadScene\<close>, which reads the scene from its \<^verbatim>\<open>scene\<close> property and finds
  neither \<^verbatim>\<open>mode\<close> nor \<^verbatim>\<open>params\<close>.
\<close>

definition newGame :: "nat \<Rightarrow> (nat \<Rightarrow> bool) \<Rightarrow> GameParams \<Rightarrow> exn option \<times> Game" where
  "newGame this st p =
     (let g0 = initTicker
            \<lparr>gameId = this, scene = None, canvas = None, playing = False, gameStarted = False,
             multiScenes = Some [],
             ticker = Some \<lparr>tickerAutoStart = False,
                            tickerFrameRate = (case frameRate p of None \<Rightarrow> 120 | Some r \<Rightarrow> r)\<rparr>,
             systems = [], trace = [], objStarted = st\<rparr>
      in case addEach (case initialSystems p of None \<Rightarrow> [] | Some ss \<Rightarrow> ss) g0 of
           (Some e, g1) \<Rightarrow> (Some e, g1)
         | (None, g1) \<Rightarrow>
             (case (if (case needScene p of None \<Rightarrow> True | Some b \<Rightarrow> b)
                    then loadScene \<lparr>lsScene = Some \<lparr>sceneName = ''scene'', gameObjects = []\<rparr>,
                                    lsMode = None, lsParams = None\<rparr> g1
                    else (None, g1)) of
                (Some e, g2) \<Rightarrow> (Some e, g2)
              | (None, g2) \<Rightarrow>
                  if (case autoStart p of None \<Rightarrow> True | Some b \<Rightarrow> b) then start g2
                  else (None, g2)))"

section \<open>Sequences of calls\<close>

text \<open>
  The public surface as a datatype of calls, so that "at any time" can be stated: a state
  of the game is what a sequence of calls leaves, whether a call returned or threw.
\<close>

datatype call =
    CallAddSystem addArg
  | CallRemoveSystem removeArg
  | CallStart
  | CallPause
  | CallResume
  | CallTick frame
  | CallLoadScene LoadSceneParams
  | CallDestroySystems
  | CallDestroy

fun exec :: "call \<Rightarrow> Game \<Rightarrow> Game" where
  "exec (CallAddSystem S) g = snd (addSystem S g)"
| "exec (CallRemoveSystem S) g = snd (removeSystem S g)"
| "exec CallStart g = snd (start g)"
| "exec CallPause g = snd (pause g)"
| "exec CallResume g = snd (resume g)"
| "exec (CallTick e) g = snd (tick e g)"
| "exec (CallLoadScene p) g = snd (loadScene p g)"
| "exec CallDestroySystems g = snd (destroySystems g)"
| "exec CallDestroy g = snd (destroy g)"

definition run :: "call list \<Rightarrow> Game \<Rightarrow> Game" where
  "run cs g = fold exec cs g"

section \<open>Vocabulary of the statements\<close>

text \<open>The events a call has appended to the trace.\<close>

definition newEvents :: "Game \<Rightarrow> Game \<Rightarrow> event list" where
  "newEvents g g' = drop (length (trace g)) (trace g')"


text \<open>The object an event is about: the receiver of the call, or of the failed call.\<close>

fun refOf :: "event \<Rightarrow> nat option" where
  "refOf (Invoke r h) = Some r"
| "refOf (ConsoleError m (HookError r h)) = Some r"
| "refOf ev = None"

text \<open>The event is about one of the objects \<open>objs\<close>.\<close>

definition targets :: "event \<Rightarrow> 'a lifecycle_scheme list \<Rightarrow> bool" where
  "targets ev objs = (case refOf ev of None \<Rightarrow> False | Some r \<Rightarrow> r \<in> set (map ref objs))"

text \<open>The objects whose hook \<open>h\<close> was called, in the order of the calls.\<close>

fun calls :: "hook \<Rightarrow> event list \<Rightarrow> nat list" where
  "calls h [] = []"
| "calls h (Invoke r h' # evs) = (if h' = h then r # calls h evs else calls h evs)"
| "calls h (ev # evs) = calls h evs"

text \<open>The objects of a collection that have the hook \<open>h\<close>, in the order of the collection.\<close>

definition having :: "hook \<Rightarrow> 'a lifecycle_scheme list \<Rightarrow> nat list" where
  "having h objs = map ref (filter (\<lambda>obj. hooks obj h \<noteq> None) objs)"

definition isUnit :: "'a lifecycle_scheme \<Rightarrow> bool" where
  "isUnit obj = (instanceOf obj SystemClass \<or> instanceOf obj ComponentClass)"

definition allComponents :: "gameObject list \<Rightarrow> component list" where
  "allComponents gos = concat (map components gos)"

text \<open>The GameObjects a frame tick dispatches to: what the callback passes to the loop.\<close>

definition population :: "Game \<Rightarrow> gameObject list" where
  "population g =
     (case scene g of
        None \<Rightarrow> []
      | Some s \<Rightarrow> (case getAllGameObjects g of Inl x \<Rightarrow> [] | Inr gos \<Rightarrow> gos))"

text \<open>Every Component of every scene of the game, dispatched or not.\<close>

definition sceneComponents :: "Game \<Rightarrow> component list" where
  "sceneComponents g =
     allComponents ((case scene g of None \<Rightarrow> [] | Some s \<Rightarrow> gameObjects s)
       @ concat (map gameObjects (case multiScenes g of None \<Rightarrow> [] | Some ms \<Rightarrow> ms)))"

text \<open>From \<open>g\<close> to \<open>g'\<close> the trace has grown, by no call of a \<^verbatim>\<open>start\<close> hook.\<close>

definition quietly :: "Game \<Rightarrow> Game \<Rightarrow> bool" where
  "quietly g g' = (\<exists>evs. trace g' = trace g @ evs \<and> calls Start evs = [])"

text \<open>The hook calls among the events, each with its receiver, in the order of the calls.\<close>

fun hookCalls :: "event list \<Rightarrow> (nat \<times> hook) list" where
  "hookCalls [] = []"
| "hookCalls (Invoke r h # evs) = (r, h) # hookCalls evs"
| "hookCalls (ev # evs) = hookCalls evs"

text \<open>
  From the words of the specification (section 4.1), to be compared with the passes of the
  source: "triggerStart(unit): no-op if unit.started is true; otherwise invokes
  unit.start() if present [and sets] started to true afterward", and
  "perFrameUpdate(unit): calls triggerStart(unit) then, if present, unit.update". The hook
  calls this prescribes for the objects \<open>us\<close>, in order, when the flags are \<open>st\<close> at the
  beginning: for each object its \<^verbatim>\<open>start\<close>, if it is due, immediately before its \<^verbatim>\<open>update\<close>.
  The units of the specification are the Systems and the Components; \<^verbatim>\<open>start\<close> is due when
  the object is one of them and is not started, and a unit is started once it has been
  dispatched.
\<close>

fun perFrameUpdate :: "(nat \<Rightarrow> bool) \<Rightarrow> 'a lifecycle_scheme list \<Rightarrow> (nat \<times> hook) list" where
  "perFrameUpdate st [] = []"
| "perFrameUpdate st (u # us) =
     (if isUnit u \<and> \<not> st (ref u) \<and> hooks u Start \<noteq> None then [(ref u, Start)] else [])
     @ (if hooks u Update \<noteq> None then [(ref u, Update)] else [])
     @ perFrameUpdate (if isUnit u then st(ref u := True) else st) us"

text \<open>
  The objects of a collection, each once: every reference to an object but the first is
  dropped.
\<close>

fun firstByRef :: "'a lifecycle_scheme list \<Rightarrow> 'a lifecycle_scheme list" where
  "firstByRef [] = []"
| "firstByRef (u # us) = u # filter (\<lambda>v. ref v \<noteq> ref u) (firstByRef us)"

text \<open>The flags after the units \<open>us\<close> have been dispatched: those of \<open>st\<close>, and the units.\<close>

definition startedBy :: "(nat \<Rightarrow> bool) \<Rightarrow> 'a lifecycle_scheme list \<Rightarrow> nat \<Rightarrow> bool" where
  "startedBy st us r = (st r \<or> r \<in> set (map ref (filter isUnit us)))"

text \<open>What \<^verbatim>\<open>addSystem\<close> takes its argument for: lines 201 to 209.\<close>

fun resolved :: "addArg \<Rightarrow> system option" where
  "resolved (Function (Inr s)) = Some s"
| "resolved (Function (Inl e)) = None"
| "resolved (Object s) = (if instanceOf s SystemClass then Some s else None)"

text \<open>
  The index \<^verbatim>\<open>removeSystem\<close> resolves its argument to (lines 241 to 250), \<open>-1\<close> when it
  resolves to nothing, and the System at that index.
\<close>

definition resolvedIndex :: "removeArg \<Rightarrow> Game \<Rightarrow> int" where
  "resolvedIndex system0 g =
     (if falsy system0 then - 1
      else (case system0 of
              Str n \<Rightarrow> findIndex (\<lambda>s. name s = n) (systems g)
            | Fn c \<Rightarrow> findIndex (\<lambda>s. ctor s = c) (systems g)
            | Obj obj \<Rightarrow>
                if instanceOf obj SystemClass
                then findIndex (\<lambda>s. ref s = ref obj) (systems g) else - 1
            | Undefined \<Rightarrow> - 1))"

definition resolvedSystem :: "removeArg \<Rightarrow> Game \<Rightarrow> system option" where
  "resolvedSystem system0 g =
     (if resolvedIndex system0 g > - 1 then Some (systems g ! nat (resolvedIndex system0 g))
      else None)"

section \<open>Scenarios\<close>

definition mkSystem :: "nat \<Rightarrow> cls \<Rightarrow> cls list \<Rightarrow> string \<Rightarrow> (hook \<rightharpoonup> outcome) \<Rightarrow> system" where
  "mkSystem r c bs n hs =
     \<lparr>ref = r, ctor = c, bases = bs, name = n, systemName = n, componentName = [],
      hooks = hs, game = None\<rparr>"

definition mkComponent :: "nat \<Rightarrow> cls \<Rightarrow> string \<Rightarrow> (hook \<rightharpoonup> outcome) \<Rightarrow> component" where
  "mkComponent r c n hs =
     \<lparr>ref = r, ctor = c, bases = [ComponentClass], name = n, systemName = [],
      componentName = n, hooks = hs\<rparr>"

text \<open>
  \<^verbatim>\<open>new Game({autoStart: false})\<close>: an empty primary scene, no system, not playing. In the
  scenarios no object has been started when the game is built.
\<close>

definition freshGame :: Game where
  "freshGame =
     snd (newGame 7 (\<lambda>r. False)
            \<lparr>autoStart = Some False, frameRate = None, initialSystems = None,
             needScene = None\<rparr>)"

text \<open>\<^verbatim>\<open>new Game({autoStart: false, needScene: false})\<close>: no primary scene.\<close>

definition sceneless :: Game where
  "sceneless =
     snd (newGame 7 (\<lambda>r. False)
            \<lparr>autoStart = Some False, frameRate = None, initialSystems = None,
             needScene = Some False\<rparr>)"

text \<open>Systems of three classes; the second one's \<^verbatim>\<open>destroy\<close> throws, as does its \<^verbatim>\<open>start\<close>.\<close>

definition sysA :: system where
  "sysA = mkSystem 10 100 [SystemClass] ''A'' [Start \<mapsto> Returns, Update \<mapsto> Returns, Destroy \<mapsto> Returns]"

definition sysB :: system where
  "sysB = mkSystem 11 101 [SystemClass] ''B''
            [Start \<mapsto> Throws, Update \<mapsto> Throws, LateUpdate \<mapsto> Returns, Destroy \<mapsto> Throws]"

definition sysC :: system where
  "sysC = mkSystem 12 102 [SystemClass] ''C'' [LateUpdate \<mapsto> Returns, OnPause \<mapsto> Throws]"

text \<open>A second instance of the class of \<open>sysA\<close>.\<close>

definition sysA2 :: system where
  "sysA2 = mkSystem 13 100 [SystemClass] ''A'' Map.empty"

text \<open>A subclass of the class of \<open>sysA\<close>.\<close>

definition sysSub :: system where
  "sysSub = mkSystem 14 103 [100, SystemClass] ''Sub'' [Destroy \<mapsto> Returns]"

text \<open>Systems whose \<^verbatim>\<open>awake\<close>, respectively \<^verbatim>\<open>init\<close>, throws.\<close>

definition faultyAwake :: system where
  "faultyAwake = mkSystem 15 104 [SystemClass] ''FaultySystem'' [Init \<mapsto> Returns, Awake \<mapsto> Throws]"

definition faultyInit :: system where
  "faultyInit = mkSystem 16 105 [SystemClass] ''FaultyInit'' [Init \<mapsto> Throws, Awake \<mapsto> Returns]"

definition threeSystems :: Game where
  "threeSystems =
     snd (newGame 7 (\<lambda>r. False)
            \<lparr>autoStart = Some False, frameRate = None,
             initialSystems = Some [sysA, sysB, sysC], needScene = None\<rparr>)"

text \<open>The same without the second System: no \<^verbatim>\<open>destroy\<close> hook throws.\<close>

definition twoSystems :: Game where
  "twoSystems =
     snd (newGame 7 (\<lambda>r. False)
            \<lparr>autoStart = Some False, frameRate = None,
             initialSystems = Some [sysA, sysC], needScene = None\<rparr>)"

definition compP :: component where
  "compP = mkComponent 20 200 ''P'' [Start \<mapsto> Throws, Update \<mapsto> Returns, LateUpdate \<mapsto> Returns]"

definition compQ :: component where
  "compQ = mkComponent 21 201 ''Q'' [Update \<mapsto> Throws, LateUpdate \<mapsto> Throws]"

definition compR :: component where
  "compR = mkComponent 22 202 ''R'' [Start \<mapsto> Returns, Update \<mapsto> Returns, LateUpdate \<mapsto> Returns]"

definition sceneOne :: scene where
  "sceneOne =
     \<lparr>sceneName = ''one'',
      gameObjects = [\<lparr>goName = ''g1'', components = [compP, compQ]\<rparr>]\<rparr>"

definition sceneTwo :: scene where
  "sceneTwo =
     \<lparr>sceneName = ''two'',
      gameObjects = [\<lparr>goName = ''g2'', components = [compR]\<rparr>]\<rparr>"

text \<open>Three systems, \<open>sceneOne\<close> as the primary scene, \<open>sceneTwo\<close> as a secondary scene.\<close>

definition populated :: Game where
  "populated =
     run [CallLoadScene \<lparr>lsScene = Some sceneOne, lsMode = Some SINGLE, lsParams = None\<rparr>,
          CallLoadScene \<lparr>lsScene = Some sceneTwo, lsMode = Some MULTI_CANVAS, lsParams = None\<rparr>]
       threeSystems"


text \<open>Three systems, no primary scene, \<open>sceneTwo\<close> as a secondary scene.\<close>

definition secondaryOnly :: Game where
  "secondaryOnly =
     run [CallAddSystem (Object sysA), CallAddSystem (Object sysB), CallAddSystem (Object sysC),
          CallLoadScene \<lparr>lsScene = Some sceneTwo, lsMode = Some MULTI_CANVAS, lsParams = None\<rparr>]
       sceneless"

text \<open>An instance of the subclass registered first, then one of its base class.\<close>

definition subAndBase :: Game where
  "subAndBase =
     run [CallAddSystem (Object sysSub), CallAddSystem (Function (Inr sysA))] freshGame"

section \<open>The traces of the passes\<close>

text \<open>
  A pass only appends to the trace, and what it appends does not depend on the trace it
  starts from: the events of a pass are its trace from the empty one.
\<close>

lemma foldl_append_concat: "foldl (\<lambda>acc gos. acc @ gos) a xs = a @ concat xs"
  by (induction xs arbitrary: a) simp_all

lemma getAllGameObjects_live:
  "multiScenes g = Some ms \<Longrightarrow>
   getAllGameObjects g =
     Inr ((case scene g of None \<Rightarrow> [] | Some s \<Rightarrow> gameObjects s) @ concat (map gameObjects ms))"
  by (simp add: getAllGameObjects_def foldl_append_concat)

lemma invoke_trace: "snd (invoke obj h tr) = tr @ snd (invoke obj h [])"
  by (simp add: invoke_def split: option.splits outcome.splits)

lemma invoke_result: "fst (invoke obj h tr) = fst (invoke obj h [])"
  by (simp add: invoke_def split: option.splits outcome.splits)

lemma guarded_trace: "guarded obj h msg tr = tr @ guarded obj h msg []"
  by (simp add: guarded_def invoke_def split: option.splits outcome.splits)

lemma triggerStart_trace: "snd (triggerStart obj st tr) = tr @ snd (triggerStart obj st [])"
  using guarded_trace [of obj Start _ tr] by (simp add: triggerStart_def)

lemma triggerStart_fst:
  "fst (triggerStart obj st tr) = (if isUnit obj then st(ref obj := True) else st)"
proof -
  have "st (ref obj) \<Longrightarrow> st(ref obj := True) = st"
    by (rule ext) simp
  then show ?thesis by (auto simp: triggerStart_def isUnit_def)
qed

lemma triggerStart_snd:
  "snd (triggerStart obj st []) =
     (if isUnit obj \<and> \<not> st (ref obj)
      then guarded obj Start
             (if instanceOf obj ComponentClass then componentName obj @ '' start error''
              else systemName obj @ '' start error'') []
      else [])"
  by (simp add: triggerStart_def isUnit_def)

lemma startedBy_Nil: "startedBy st [] = st"
  by (rule ext) (simp add: startedBy_def)

lemma startedBy_Cons:
  "startedBy st (u # us) = startedBy (if isUnit u then st(ref u := True) else st) us"
  by (rule ext) (auto simp: startedBy_def)

lemma startedBy_append: "startedBy st (xs @ ys) = startedBy (startedBy st xs) ys"
  by (rule ext) (auto simp: startedBy_def)

lemma updatePass_Cons:
  "updatePass msg (obj # objs) st tr =
     updatePass msg objs (if isUnit obj then st(ref obj := True) else st)
       (guarded obj Update (msg obj) (snd (triggerStart obj st tr)))"
  using triggerStart_fst [of obj st tr] by (simp add: case_prod_beta)

lemma updatePass_trace:
  "snd (updatePass msg objs st tr) = tr @ snd (updatePass msg objs st [])"
proof (induction objs arbitrary: st tr)
  case Nil
  show ?case by simp
next
  case (Cons obj objs)
  let ?st = "if isUnit obj then st(ref obj := True) else st"
  define t2 where "t2 = snd (triggerStart obj st [])"
  have t: "snd (triggerStart obj st tr) = tr @ t2"
    using triggerStart_trace [of obj st tr] by (simp add: t2_def)
  have g: "guarded obj Update (msg obj) (tr @ t2) = tr @ guarded obj Update (msg obj) t2"
    using guarded_trace [of obj Update "msg obj" "tr @ t2"]
          guarded_trace [of obj Update "msg obj" t2] by simp
  have "snd (updatePass msg (obj # objs) st tr)
      = snd (updatePass msg objs ?st (guarded obj Update (msg obj) (tr @ t2)))"
    by (simp only: updatePass_Cons t)
  also have "\<dots> = tr @ guarded obj Update (msg obj) t2 @ snd (updatePass msg objs ?st [])"
    using Cons.IH [of ?st "guarded obj Update (msg obj) (tr @ t2)"] g by simp
  also have "\<dots> = tr @ snd (updatePass msg objs ?st (guarded obj Update (msg obj) t2))"
    using Cons.IH [of ?st "guarded obj Update (msg obj) t2"] by simp
  also have "\<dots> = tr @ snd (updatePass msg (obj # objs) st [])"
    by (simp only: updatePass_Cons t2_def)
  finally show ?case .
qed

text \<open>The flags a pass leaves are those of the store it starts from, and its units.\<close>

lemma updatePass_fst: "fst (updatePass msg objs st tr) = startedBy st objs"
proof (induction objs arbitrary: st tr)
  case Nil
  show ?case by (simp add: startedBy_Nil)
next
  case (Cons obj objs)
  show ?case by (simp only: updatePass_Cons Cons.IH startedBy_Cons)
qed

lemma hookPass_trace: "hookPass h msg objs tr = tr @ hookPass h msg objs []"
proof (induction objs arbitrary: tr)
  case Nil
  show ?case by simp
next
  case (Cons obj objs)
  show ?case
    using Cons.IH [of "guarded obj h (msg obj) tr"] Cons.IH [of "guarded obj h (msg obj) []"]
          guarded_trace [of obj h "msg obj" tr]
    by simp
qed

lemma updateGameObjects_fst:
  "fst (updateGameObjects gos st tr) = startedBy st (allComponents gos)"
proof (induction gos arbitrary: st tr)
  case Nil
  show ?case by (simp add: startedBy_Nil allComponents_def)
next
  case (Cons go gos)
  show ?case
    using Cons.IH by (simp add: case_prod_beta updatePass_fst allComponents_def startedBy_append)
qed

lemma updateGameObjects_trace:
  "snd (updateGameObjects gos st tr) = tr @ snd (updateGameObjects gos st [])"
proof (induction gos arbitrary: st tr)
  case Nil
  show ?case by simp
next
  case (Cons go gos)
  let ?msg = "\<lambda>c::component. ''gameObject: '' @ goName go @ '' '' @ name c @ '' update error''"
  let ?st = "startedBy st (components go)"
  have "snd (updateGameObjects (go # gos) st tr)
      = snd (updateGameObjects gos ?st (snd (updatePass ?msg (components go) st tr)))"
    by (simp add: case_prod_beta updatePass_fst)
  also have "\<dots> = tr @ snd (updatePass ?msg (components go) st [])
                      @ snd (updateGameObjects gos ?st [])"
    using Cons.IH [of ?st "snd (updatePass ?msg (components go) st tr)"]
          updatePass_trace [of ?msg "components go" st tr] by simp
  also have "\<dots> = tr @ snd (updateGameObjects (go # gos) st [])"
    using Cons.IH [of ?st "snd (updatePass ?msg (components go) st [])"]
    by (simp add: case_prod_beta updatePass_fst)
  finally show ?case .
qed

lemma lateUpdateGameObjects_trace:
  "lateUpdateGameObjects gos tr = tr @ lateUpdateGameObjects gos []"
proof (induction gos arbitrary: tr)
  case Nil
  show ?case by simp
next
  case (Cons go gos)
  let ?msg = "\<lambda>c::component. ''gameObject: '' @ goName go @ '' '' @ name c @ '' lateUpdate error''"
  show ?case
    using Cons.IH [of "hookPass LateUpdate ?msg (components go) tr"]
          Cons.IH [of "hookPass LateUpdate ?msg (components go) []"]
          hookPass_trace [of LateUpdate ?msg "components go" tr]
    by simp
qed

lemma gameObjectPause_trace: "gameObjectPause gos tr = tr @ gameObjectPause gos []"
proof (induction gos arbitrary: tr)
  case Nil
  show ?case by simp
next
  case (Cons go gos)
  let ?msg = "\<lambda>c::component. ''gameObject: '' @ goName go @ '', '' @ name c @ '', onResume error''"
  show ?case
    using Cons.IH [of "hookPass OnPause ?msg (components go) tr"]
          Cons.IH [of "hookPass OnPause ?msg (components go) []"]
          hookPass_trace [of OnPause ?msg "components go" tr]
    by simp
qed

text \<open>The hook calls of the passes.\<close>

lemma calls_append: "calls h (evs @ evs') = calls h evs @ calls h evs'"
  by (induction h evs rule: calls.induct) simp_all

lemma hookCalls_append: "hookCalls (evs @ evs') = hookCalls evs @ hookCalls evs'"
  by (induction evs rule: hookCalls.induct) simp_all

lemma calls_hookCalls: "calls h evs = map fst (filter (\<lambda>c. snd c = h) (hookCalls evs))"
  by (induction h evs rule: calls.induct) simp_all

lemma guarded_cases:
  "guarded obj h msg tr =
     (case hooks obj h of
        None \<Rightarrow> tr
      | Some Returns \<Rightarrow> tr @ [Invoke (ref obj) h]
      | Some Throws \<Rightarrow> tr @ [Invoke (ref obj) h, ConsoleError msg (HookError (ref obj) h)])"
proof (cases "hooks obj h")
  case None
  then show ?thesis by (simp add: guarded_def invoke_def)
next
  case (Some out)
  then show ?thesis by (cases out) (simp_all add: guarded_def invoke_def)
qed

lemma hookCalls_guarded:
  "hookCalls (guarded obj h msg []) = (if hooks obj h \<noteq> None then [(ref obj, h)] else [])"
proof (cases "hooks obj h")
  case None
  then show ?thesis by (simp add: guarded_cases)
next
  case (Some out)
  then show ?thesis by (cases out) (simp_all add: guarded_cases)
qed

lemma calls_guarded:
  "calls h' (guarded obj h msg []) = (if h' = h \<and> hooks obj h \<noteq> None then [ref obj] else [])"
  by (simp add: calls_hookCalls hookCalls_guarded)


lemma hookCalls_triggerStart:
  "hookCalls (snd (triggerStart obj st [])) =
     (if isUnit obj \<and> \<not> st (ref obj) \<and> hooks obj Start \<noteq> None then [(ref obj, Start)] else [])"
  by (simp add: triggerStart_snd hookCalls_guarded)



lemma updatePass_Cons_snd:
  "snd (updatePass msg (obj # objs) st []) =
     snd (triggerStart obj st []) @ guarded obj Update (msg obj) []
       @ snd (updatePass msg objs (if isUnit obj then st(ref obj := True) else st) [])"
  using updatePass_trace [of msg objs "if isUnit obj then st(ref obj := True) else st"
          "guarded obj Update (msg obj) (snd (triggerStart obj st []))"]
        guarded_trace [of obj Update "msg obj" "snd (triggerStart obj st [])"]
  by (simp only: updatePass_Cons append_assoc)

text \<open>
  The first pass makes the hook calls that the specification prescribes: for each unit
  \<^verbatim>\<open>start\<close>, if it is due, then \<^verbatim>\<open>update\<close>.
\<close>

lemma hookCalls_updatePass:
  "hookCalls (snd (updatePass msg objs st [])) = perFrameUpdate st objs"
proof (induction objs arbitrary: st)
  case Nil
  show ?case by simp
next
  case (Cons obj objs)
  show ?case
    by (simp add: updatePass_Cons_snd hookCalls_append hookCalls_triggerStart hookCalls_guarded
          Cons.IH del: updatePass.simps)
qed


lemma perFrameUpdate_updates:
  "map fst (filter (\<lambda>c. snd c = Update) (perFrameUpdate st us)) = having Update us"
  by (induction us arbitrary: st) (simp_all add: having_def)

lemma perFrameUpdate_others:
  "h \<noteq> Start \<Longrightarrow> h \<noteq> Update \<Longrightarrow> filter (\<lambda>c. snd c = h) (perFrameUpdate st us) = []"
  by (induction us arbitrary: st) simp_all



lemma firstByRef_filter:
  "firstByRef (filter (\<lambda>v. ref v \<noteq> r) xs) = filter (\<lambda>v. ref v \<noteq> r) (firstByRef xs)"
proof (induction xs)
  case Nil
  show ?case by simp
next
  case (Cons x xs)
  show ?case
  proof (cases "ref x = r")
    case True
    then show ?thesis by (simp add: Cons.IH)
  next
    case False
    then show ?thesis by (simp add: Cons.IH conj_commute)
  qed
qed

lemma firstByRef_distinct: "distinct (map ref xs) \<Longrightarrow> firstByRef xs = xs"
proof (induction xs)
  case Nil
  show ?case by simp
next
  case (Cons x xs)
  then have "firstByRef xs = xs" and "ref x \<notin> ref ` set xs" by simp_all
  moreover from this have "\<forall>v\<in>set xs. ref v \<noteq> ref x" by (metis imageI)
  ultimately show ?case by simp
qed

lemma perFrameUpdate_starts_exact:
  "map fst (filter (\<lambda>c. snd c = Start) (perFrameUpdate st us)) =
     having Start (firstByRef (filter (\<lambda>u. isUnit u \<and> \<not> st (ref u)) us))"
proof (induction us arbitrary: st)
  case Nil
  show ?case by (simp add: having_def)
next
  case (Cons u us)
  show ?case
  proof (cases "isUnit u")
    case False
    then show ?thesis using Cons.IH [of st] by simp
  next
    case unit: True
    show ?thesis
    proof (cases "st (ref u)")
      case True
      then have "st(ref u := True) = st" by (rule_tac ext) simp
      with unit True show ?thesis using Cons.IH [of st] by simp
    next
      case False
      let ?st = "st(ref u := True)"
      have "filter (\<lambda>v. isUnit v \<and> \<not> ?st (ref v)) us
          = filter (\<lambda>v. ref v \<noteq> ref u) (filter (\<lambda>v. isUnit v \<and> \<not> st (ref v)) us)"
        by (auto intro: filter_cong)
      then have "map fst (filter (\<lambda>c. snd c = Start) (perFrameUpdate ?st us)) =
          having Start (filter (\<lambda>v. ref v \<noteq> ref u)
                          (firstByRef (filter (\<lambda>v. isUnit v \<and> \<not> st (ref v)) us)))"
        using Cons.IH [of ?st] by (simp only: firstByRef_filter)
      with unit False show ?thesis by (simp add: having_def)
    qed
  qed
qed

lemma calls_updatePass:
  "calls h (snd (updatePass msg objs st [])) =
     (if h = Start then map fst (filter (\<lambda>c. snd c = Start) (perFrameUpdate st objs))
      else if h = Update then having Update objs else [])"
  by (simp add: calls_hookCalls hookCalls_updatePass perFrameUpdate_updates
        perFrameUpdate_others)


lemma hookPass_Cons:
  "hookPass h msg (obj # objs) [] = guarded obj h (msg obj) [] @ hookPass h msg objs []"
  using hookPass_trace [of h msg objs "guarded obj h (msg obj) []"] by simp

lemma hookCalls_hookPass:
  "hookCalls (hookPass h msg objs []) =
     map (\<lambda>obj. (ref obj, h)) (filter (\<lambda>obj. hooks obj h \<noteq> None) objs)"
proof (induction objs)
  case Nil
  show ?case by simp
next
  case (Cons obj objs)
  show ?case
    using Cons.IH
    by (simp add: hookPass_Cons hookCalls_append hookCalls_guarded del: hookPass.simps)
qed

lemma calls_hookPass:
  "calls h' (hookPass h msg objs []) = (if h' = h then having h objs else [])"
proof (induction objs)
  case Nil
  show ?case by (simp add: having_def)
next
  case (Cons obj objs)
  show ?case
    using Cons.IH
    by (simp add: hookPass_Cons calls_append calls_guarded having_def del: hookPass.simps)
qed









section \<open>One frame tick\<close>

text \<open>
  A frame tick writes the trace and the store of the \<^verbatim>\<open>started\<close> flags, nothing else: the
  registry and the scenes are as they were.
\<close>

lemma tick_sceneless:
  assumes "scene g = None"
  shows "tick e g =
     (None, g\<lparr>trace := trace g
                 @ snd (updatePass (\<lambda>s. systemName s @ '' update error'') (systems g)
                          (objStarted g) [])
                 @ hookPass LateUpdate (\<lambda>s. systemName s @ '' lateUpdate error'') (systems g) [],
               objStarted := startedBy (objStarted g) (systems g)\<rparr>)"
proof -
  let ?M = "\<lambda>s::system. systemName s @ '' update error''"
  let ?L = "\<lambda>s::system. systemName s @ '' lateUpdate error''"
  have "tick e g =
     (None, g\<lparr>trace := hookPass LateUpdate ?L (systems g)
                          (snd (updatePass ?M (systems g) (objStarted g) (trace g))),
               objStarted := fst (updatePass ?M (systems g) (objStarted g) (trace g))\<rparr>)"
    using assms by (simp add: tick_def case_prod_beta)
  then show ?thesis
    using updatePass_trace [of ?M "systems g" "objStarted g" "trace g"]
          hookPass_trace [of LateUpdate ?L "systems g"
                            "snd (updatePass ?M (systems g) (objStarted g) (trace g))"]
    by (simp add: updatePass_fst)
qed

lemma tick_scene:
  assumes "scene g = Some s" and "multiScenes g = Some ms"
  shows "tick e g =
     (None, g\<lparr>trace := trace g
               @ snd (updateGameObjects (population g) (objStarted g) [])
               @ lateUpdateGameObjects (population g) []
               @ snd (updatePass (\<lambda>s. systemName s @ '' update error'') (systems g)
                        (startedBy (objStarted g) (allComponents (population g))) [])
               @ hookPass LateUpdate (\<lambda>s. systemName s @ '' lateUpdate error'') (systems g) [],
              objStarted :=
                startedBy (startedBy (objStarted g) (allComponents (population g))) (systems g)\<rparr>)"
proof -
  let ?M = "\<lambda>s::system. systemName s @ '' update error''"
  let ?L = "\<lambda>s::system. systemName s @ '' lateUpdate error''"
  let ?gos = "population g"
  let ?st = "startedBy (objStarted g) (allComponents ?gos)"
  have all: "getAllGameObjects g = Inr ?gos"
    using assms getAllGameObjects_live [OF assms(2)] by (simp add: population_def)
  define tr where
    "tr = lateUpdateGameObjects ?gos (snd (updateGameObjects ?gos (objStarted g) (trace g)))"
  have loop: "gameObjectLoop e ?gos (objStarted g) (trace g) = (?st, tr)"
    by (simp add: gameObjectLoop_def case_prod_beta updateGameObjects_fst tr_def)
  have "tick e g =
     (None, g\<lparr>trace := hookPass LateUpdate ?L (systems g)
                          (snd (updatePass ?M (systems g) ?st tr)),
              objStarted := fst (updatePass ?M (systems g) ?st tr)\<rparr>)"
    using assms(1) by (simp add: tick_def all loop case_prod_beta)
  moreover have "tr = trace g @ snd (updateGameObjects ?gos (objStarted g) [])
                        @ lateUpdateGameObjects ?gos []"
    using updateGameObjects_trace [of ?gos "objStarted g" "trace g"]
          lateUpdateGameObjects_trace
            [of ?gos "snd (updateGameObjects ?gos (objStarted g) (trace g))"]
    by (simp add: tr_def)
  ultimately show ?thesis
    using updatePass_trace [of ?M "systems g" ?st tr]
          hookPass_trace [of LateUpdate ?L "systems g" "snd (updatePass ?M (systems g) ?st tr)"]
    by (simp add: updatePass_fst)
qed

lemma population_sceneless: "scene g = None \<Longrightarrow> population g = []"
  by (simp add: population_def)

text \<open>
  A frame tick throws only when the primary scene is there and the array of the secondary
  scenes is not (a scene loaded after \<^verbatim>\<open>destroy\<close>), and then before any dispatch;
  otherwise it completes.
\<close>

lemma tick_throws: "fst (tick e g) \<noteq> None \<Longrightarrow> snd (tick e g) = g"
proof (cases "scene g")
  case None
  assume "fst (tick e g) \<noteq> None"
  with None show ?thesis by (simp add: tick_sceneless)
next
  case (Some s)
  assume t: "fst (tick e g) \<noteq> None"
  show ?thesis
  proof (cases "multiScenes g")
    case None
    with Some show ?thesis by (simp add: tick_def getAllGameObjects_def)
  next
    case ms: (Some ms)
    with Some t show ?thesis by (simp add: tick_scene)
  qed
qed

lemma tick_completes: "(fst (tick e g) = None) = (scene g = None \<or> multiScenes g \<noteq> None)"
proof (cases "scene g")
  case None
  then show ?thesis by (simp add: tick_sceneless)
next
  case (Some s)
  show ?thesis
  proof (cases "multiScenes g")
    case None
    with Some show ?thesis by (simp add: tick_def getAllGameObjects_def)
  next
    case ms: (Some ms)
    with Some show ?thesis by (simp add: tick_scene)
  qed
qed

lemma tick_completed:
  assumes "fst (tick e g) = None"
  shows "snd (tick e g) =
     g\<lparr>trace := trace g
          @ snd (updateGameObjects (population g) (objStarted g) [])
          @ lateUpdateGameObjects (population g) []
          @ snd (updatePass (\<lambda>s. systemName s @ '' update error'') (systems g)
                   (startedBy (objStarted g) (allComponents (population g))) [])
          @ hookPass LateUpdate (\<lambda>s. systemName s @ '' lateUpdate error'') (systems g) [],
       objStarted :=
         startedBy (startedBy (objStarted g) (allComponents (population g))) (systems g)\<rparr>"
proof (cases "scene g")
  case None
  then show ?thesis
    by (simp add: tick_sceneless population_sceneless allComponents_def startedBy_Nil)
next
  case (Some s)
  with assms obtain ms where "multiScenes g = Some ms"
    using tick_completes [of e g] by auto
  with Some show ?thesis by (simp add: tick_scene)
qed

lemma tick_frame:
  "snd (tick e g) =
     g\<lparr>trace := trace (snd (tick e g)), objStarted := objStarted (snd (tick e g))\<rparr>"
proof (cases "fst (tick e g) = None")
  case True
  from tick_completed [OF True] obtain tr st where
    "snd (tick e g) = g\<lparr>trace := tr, objStarted := st\<rparr>" by blast
  then show ?thesis by simp
next
  case False
  then show ?thesis by (simp add: tick_throws)
qed



lemma refOf_guarded: "ev \<in> set (guarded obj h msg []) \<Longrightarrow> refOf ev = Some (ref obj)"
proof (cases "hooks obj h")
  case None
  assume "ev \<in> set (guarded obj h msg [])"
  with None show ?thesis by (simp add: guarded_cases)
next
  case (Some out)
  assume "ev \<in> set (guarded obj h msg [])"
  with Some show ?thesis by (cases out) (auto simp: guarded_cases)
qed

lemma targets_mono: "targets ev objs \<Longrightarrow> set objs \<subseteq> set objs' \<Longrightarrow> targets ev objs'"
  by (auto simp: targets_def split: option.splits)

lemma targets_guarded: "ev \<in> set (guarded obj h msg []) \<Longrightarrow> obj \<in> set objs \<Longrightarrow> targets ev objs"
  by (auto simp: targets_def dest: refOf_guarded)

lemma targets_triggerStart:
  "ev \<in> set (snd (triggerStart obj st [])) \<Longrightarrow> obj \<in> set objs \<Longrightarrow> targets ev objs"
  by (auto simp: triggerStart_snd intro: targets_guarded split: if_splits)

lemma targets_updatePass: "ev \<in> set (snd (updatePass msg objs st [])) \<Longrightarrow> targets ev objs"
proof (induction objs arbitrary: st)
  case Nil
  then show ?case by simp
next
  case (Cons obj objs)
  let ?st = "if isUnit obj then st(ref obj := True) else st"
  from Cons.prems consider
      "ev \<in> set (snd (triggerStart obj st []))"
    | "ev \<in> set (guarded obj Update (msg obj) [])"
    | "ev \<in> set (snd (updatePass msg objs ?st []))"
    by (auto simp: updatePass_Cons_snd simp del: updatePass.simps)
  then show ?case
  proof cases
    case 1
    then show ?thesis by (rule targets_triggerStart) simp
  next
    case 2
    then show ?thesis by (rule targets_guarded) simp
  next
    case 3
    then have "targets ev objs" by (rule Cons.IH)
    then show ?thesis by (rule targets_mono) auto
  qed
qed

lemma targets_hookPass: "ev \<in> set (hookPass h msg objs []) \<Longrightarrow> targets ev objs"
proof (induction objs)
  case Nil
  then show ?case by simp
next
  case (Cons obj objs)
  from Cons.prems consider
      "ev \<in> set (guarded obj h (msg obj) [])"
    | "ev \<in> set (hookPass h msg objs [])"
    by (auto simp: hookPass_Cons simp del: hookPass.simps)
  then show ?case
  proof cases
    case 1
    then show ?thesis by (rule targets_guarded) simp
  next
    case 2
    then have "targets ev objs" by (rule Cons.IH)
    then show ?thesis by (rule targets_mono) auto
  qed
qed



section \<open>The registry\<close>

lemma findIndex_range: "- 1 \<le> findIndex P xs \<and> findIndex P xs < int (length xs)"
  by (induction xs) (auto simp: Let_def)

lemma findIndex_none: "(findIndex P xs = - 1) = (\<forall>x\<in>set xs. \<not> P x)"
proof (induction xs)
  case Nil
  show ?case by simp
next
  case (Cons x xs)
  have "findIndex P xs + 1 \<noteq> - 1" using findIndex_range [of P xs] by arith
  with Cons show ?case by (simp add: Let_def)
qed

lemma findIndex_found:
  "- 1 < findIndex P xs \<Longrightarrow>
   nat (findIndex P xs) < length xs \<and> P (xs ! nat (findIndex P xs))
   \<and> (\<forall>j < nat (findIndex P xs). \<not> P (xs ! j))"
proof (induction xs)
  case Nil
  then show ?case by simp
next
  case (Cons x xs)
  show ?case
  proof (cases "P x")
    case True
    then show ?thesis by simp
  next
    case False
    let ?i = "findIndex P xs"
    have ne: "?i \<noteq> - 1" using Cons.prems False by (auto simp: Let_def split: if_splits)
    then have pos: "- 1 < ?i" using findIndex_range [of P xs] by arith
    have eq: "findIndex P (x # xs) = ?i + 1" using False ne by (simp add: Let_def)
    have n: "nat (?i + 1) = Suc (nat ?i)" using pos by arith
    from Cons.IH [OF pos] show ?thesis
      unfolding eq n using False by (auto simp: less_Suc_eq_0_disj)
  qed
qed

lemma resolvedIndex_range:
  "- 1 \<le> resolvedIndex a g \<and> resolvedIndex a g < int (length (systems g))"
  using findIndex_range [of _ "systems g"]
  by (cases a) (auto simp: resolvedIndex_def)

lemma resolvedSystem_registered: "resolvedSystem a g = Some s \<Longrightarrow> s \<in> set (systems g)"
  using resolvedIndex_range [of a g]
  by (auto simp: resolvedSystem_def split: if_splits)

text \<open>\<^verbatim>\<open>removeSystem\<close> by the index and the System it resolves its argument to.\<close>

lemma removeSystem_index:
  "removeSystem a g =
     (if resolvedIndex a g > - 1
      then (case invoke (systems g ! nat (resolvedIndex a g)) Destroy (trace g) of
              (Some e, tr1) \<Rightarrow> (Some e, g\<lparr>trace := tr1\<rparr>)
            | (None, tr1) \<Rightarrow>
                (None, g\<lparr>systems := spliceOne (nat (resolvedIndex a g)) (systems g),
                          trace := tr1\<rparr>))
      else (None, g))"
proof (cases "falsy a")
  case True
  then show ?thesis by (simp add: removeSystem_def resolvedIndex_def)
next
  case False
  then have idx: "(case a of
              Str n \<Rightarrow> findIndex (\<lambda>s. name s = n) (systems g)
            | Fn c \<Rightarrow> findIndex (\<lambda>s. ctor s = c) (systems g)
            | Obj obj \<Rightarrow>
                if instanceOf obj SystemClass
                then findIndex (\<lambda>s. ref s = ref obj) (systems g) else - 1
            | Undefined \<Rightarrow> - 1) = resolvedIndex a g"
    by (simp add: resolvedIndex_def)
  show ?thesis
    unfolding removeSystem_def Let_def idx using False by simp
qed

lemma removeSystem_nothing: "resolvedSystem a g = None \<Longrightarrow> removeSystem a g = (None, g)"
  by (simp add: removeSystem_index resolvedSystem_def split: if_splits)

lemma removeSystem_throws:
  assumes "resolvedSystem a g = Some s" and "hooks s Destroy = Some Throws"
  shows "removeSystem a g =
           (Some (HookError (ref s) Destroy), g\<lparr>trace := trace g @ [Invoke (ref s) Destroy]\<rparr>)"
proof -
  have i: "resolvedIndex a g > - 1" and s: "systems g ! nat (resolvedIndex a g) = s"
    using assms(1) by (auto simp: resolvedSystem_def split: if_splits)
  show ?thesis
    by (simp add: removeSystem_index i s invoke_def assms(2))
qed

lemma removeSystem_removes:
  assumes "resolvedSystem a g = Some s" and "hooks s Destroy \<noteq> Some Throws"
  shows "removeSystem a g =
           (None, g\<lparr>systems := spliceOne (nat (resolvedIndex a g)) (systems g),
                     trace := trace g @ (if hooks s Destroy = None then []
                                         else [Invoke (ref s) Destroy])\<rparr>)"
proof -
  have i: "resolvedIndex a g > - 1" and s: "systems g ! nat (resolvedIndex a g) = s"
    using assms(1) by (auto simp: resolvedSystem_def split: if_splits)
  show ?thesis
  proof (cases "hooks s Destroy")
    case None
    then show ?thesis by (simp add: removeSystem_index i s invoke_def)
  next
    case (Some out)
    with assms(2) have "out = Returns" by (cases out) simp_all
    with Some show ?thesis by (simp add: removeSystem_index i s invoke_def)
  qed
qed

text \<open>What \<^verbatim>\<open>addSystem\<close> does, by the way it takes its argument.\<close>

lemma addSystem_not_a_system:
  "\<not> instanceOf s SystemClass \<Longrightarrow>
   addSystem (Object s) g = (Inr None, log (ConsoleWarn ''can only add System'') g)"
  by (simp add: addSystem_def)

lemma addSystem_new_throws: "addSystem (Function (Inl e)) g = (Inl e, g)"
  by (simp add: addSystem_def)

lemma addSystem_resolved:
  assumes "resolved S = Some s"
  shows "addSystem S g =
     (case find (\<lambda>item. ctor item = ctor s) (systems g) of
        Some hasTheSystem \<Rightarrow>
          (Inr None, log (ConsoleWarn (systemName s @ '' System has been added'')) g)
      | None \<Rightarrow>
          (case invoke (s\<lparr>game := Some (gameId g)\<rparr>) Init (trace g) of
             (Some e, tr1) \<Rightarrow> (Inl e, g\<lparr>trace := tr1\<rparr>)
           | (None, tr1) \<Rightarrow>
               (Inr (Some (s\<lparr>game := Some (gameId g)\<rparr>)),
                g\<lparr>systems := systems g @ [s\<lparr>game := Some (gameId g)\<rparr>],
                  trace := guarded (s\<lparr>game := Some (gameId g)\<rparr>) Awake
                             (systemName s @ '' awake error'')
                             (tr1 @ [SetSystemObserver (ref s) (ctor s), InitObserver (ctor s)])\<rparr>)))"
proof -
  let ?s1 = "s\<lparr>game := Some (gameId g)\<rparr>"
  have arg: "(case S of
              Function made \<Rightarrow> (case made of Inl e \<Rightarrow> Inl (Some e) | Inr s \<Rightarrow> Inr s)
            | Object s \<Rightarrow> if instanceOf s SystemClass then Inr s else Inl None) = Inr s"
  proof (cases S)
    case (Function made)
    with assms have "made = Inr s" by (cases made) simp_all
    with Function show ?thesis by simp
  next
    case (Object obj)
    with assms have "obj = s" "instanceOf s SystemClass" by (auto split: if_splits)
    with Object show ?thesis by simp
  qed
  show ?thesis
  proof (cases "find (\<lambda>item. ctor item = ctor s) (systems g)")
    case (Some x)
    then show ?thesis unfolding addSystem_def arg by simp
  next
    case None
    obtain r tr1 where inv: "invoke ?s1 Init (trace g) = (r, tr1)" by fastforce
    show ?thesis
    proof (cases r)
      case None
      with \<open>find (\<lambda>item. ctor item = ctor s) (systems g) = None\<close> inv show ?thesis
        unfolding addSystem_def arg by (simp add: Let_def)
    next
      case (Some e)
      with \<open>find (\<lambda>item. ctor item = ctor s) (systems g) = None\<close> inv show ?thesis
        unfolding addSystem_def arg by (simp add: Let_def)
    qed
  qed
qed

lemma addSystem_duplicate:
  assumes "resolved S = Some s" and "ctor s \<in> ctor ` set (systems g)"
  shows "addSystem S g =
           (Inr None, log (ConsoleWarn (systemName s @ '' System has been added'')) g)"
proof -
  have "find (\<lambda>item. ctor item = ctor s) (systems g) \<noteq> None"
    using assms(2) by (auto simp: find_None_iff)
  then show ?thesis by (auto simp: addSystem_resolved [OF assms(1)])
qed

lemma addSystem_init_throws:
  assumes "resolved S = Some s" and "ctor s \<notin> ctor ` set (systems g)"
      and "hooks s Init = Some Throws"
  shows "addSystem S g =
           (Inl (HookError (ref s) Init), g\<lparr>trace := trace g @ [Invoke (ref s) Init]\<rparr>)"
proof -
  have "find (\<lambda>item. ctor item = ctor s) (systems g) = None"
    using assms(2) by (force simp: find_None_iff image_iff)
  then show ?thesis by (simp add: addSystem_resolved [OF assms(1)] invoke_def assms(3))
qed

lemma addSystem_accepted:
  assumes "resolved S = Some s" and "ctor s \<notin> ctor ` set (systems g)"
      and "hooks s Init \<noteq> Some Throws"
  shows "addSystem S g =
           (Inr (Some (s\<lparr>game := Some (gameId g)\<rparr>)),
            g\<lparr>systems := systems g @ [s\<lparr>game := Some (gameId g)\<rparr>],
              trace := trace g
                @ (if hooks s Init = None then [] else [Invoke (ref s) Init])
                @ [SetSystemObserver (ref s) (ctor s), InitObserver (ctor s)]
                @ guarded s Awake (systemName s @ '' awake error'') []\<rparr>)"
proof -
  let ?s1 = "s\<lparr>game := Some (gameId g)\<rparr>"
  have f: "find (\<lambda>item. ctor item = ctor s) (systems g) = None"
    using assms(2) by (force simp: find_None_iff image_iff)
  have g1: "guarded ?s1 Awake m t = t @ guarded s Awake m []" for m t
    using guarded_trace [of s Awake m t]
    by (simp add: guarded_cases cong: option.case_cong outcome.case_cong)
  show ?thesis
  proof (cases "hooks s Init")
    case None
    then show ?thesis by (simp add: addSystem_resolved [OF assms(1)] f invoke_def g1)
  next
    case (Some out)
    with assms(3) have "out = Returns" by (cases out) simp_all
    with Some show ?thesis by (simp add: addSystem_resolved [OF assms(1)] f invoke_def g1)
  qed
qed

section \<open>What each call leaves of the registry, the scenes and the trace\<close>

lemma subseq_spliceOne: "subseq (spliceOne i xs) xs"
proof -
  have "suffix (drop (Suc i) xs) (drop i xs)"
    by (metis Suc_eq_plus1 add.commute drop_drop suffix_drop)
  then have "subseq (drop (Suc i) xs) (drop i xs)"
    by (rule suffix_imp_subseq)
  then have "subseq (take i xs @ drop (Suc i) xs) (take i xs @ drop i xs)"
    by (intro list_emb_append_mono) simp_all
  then show ?thesis by (simp add: spliceOne_def)
qed

lemma subseq_subset: "subseq xs ys \<Longrightarrow> set xs \<subseteq> set ys"
  by (auto elim: list_emb_set)

lemma subseq_distinct: "subseq xs ys \<Longrightarrow> distinct ys \<Longrightarrow> distinct xs"
proof (induction rule: list_emb.induct)
  case (list_emb_Nil ys)
  show ?case by simp
next
  case (list_emb_Cons xs ys y)
  then show ?case by simp
next
  case (list_emb_Cons2 x y xs ys)
  then have "x \<notin> set xs" using subseq_subset [of xs ys] by auto
  with list_emb_Cons2 show ?case by simp
qed

lemma removeSystem_cases:
  "removeSystem a g = (None, g)
   \<or> (\<exists>s. resolvedSystem a g = Some s \<and> hooks s Destroy = Some Throws
          \<and> removeSystem a g =
              (Some (HookError (ref s) Destroy), g\<lparr>trace := trace g @ [Invoke (ref s) Destroy]\<rparr>))
   \<or> (\<exists>s. resolvedSystem a g = Some s \<and> hooks s Destroy \<noteq> Some Throws
          \<and> removeSystem a g =
              (None, g\<lparr>systems := spliceOne (nat (resolvedIndex a g)) (systems g),
                        trace := trace g @ (if hooks s Destroy = None then []
                                            else [Invoke (ref s) Destroy])\<rparr>))"
proof (cases "resolvedSystem a g")
  case None
  then show ?thesis by (simp add: removeSystem_nothing)
next
  case (Some s)
  show ?thesis
  proof (cases "hooks s Destroy = Some Throws")
    case True
    with Some removeSystem_throws [OF Some True] show ?thesis by blast
  next
    case False
    with Some removeSystem_removes [OF Some False] show ?thesis by blast
  qed
qed

lemma removeSystem_systems: "subseq (systems (snd (removeSystem a g))) (systems g)"
  using removeSystem_cases [of a g] by (auto simp: subseq_spliceOne)

lemma quietly_refl: "quietly g g"
  by (simp add: quietly_def)

lemma quietly_trans: "quietly g g' \<Longrightarrow> quietly g' g'' \<Longrightarrow> quietly g g''"
  by (auto simp: quietly_def calls_append)

lemma quietly_trace: "trace g' = trace g \<Longrightarrow> quietly g g'"
  by (simp add: quietly_def)

lemma quietly_append: "trace g' = trace g @ evs \<Longrightarrow> calls Start evs = [] \<Longrightarrow> quietly g g'"
  by (auto simp: quietly_def)

lemma removeSystem_quietly: "quietly g (snd (removeSystem a g))"
proof (cases "resolvedSystem a g")
  case None
  then show ?thesis by (simp add: removeSystem_nothing quietly_refl)
next
  case (Some s)
  show ?thesis
  proof (cases "hooks s Destroy = Some Throws")
    case True
    show ?thesis
      by (rule quietly_append [where evs = "[Invoke (ref s) Destroy]"])
         (simp_all add: removeSystem_throws [OF Some True])
  next
    case False
    show ?thesis
      by (rule quietly_append [where evs = "if hooks s Destroy = None then []
                                            else [Invoke (ref s) Destroy]"])
         (simp_all add: removeSystem_removes [OF Some False])
  qed
qed

lemma removeSystem_scenes:
  "scene (snd (removeSystem a g)) = scene g \<and> multiScenes (snd (removeSystem a g)) = multiScenes g"
  using removeSystem_cases [of a g] by auto

lemma removeEach_systems: "subseq (systems (snd (removeEach ss g))) (systems g)"
proof (induction ss arbitrary: g)
  case Nil
  show ?case by simp
next
  case (Cons s ss)
  obtain r g1 where rm: "removeSystem (Obj s) g = (r, g1)" by fastforce
  have g1: "subseq (systems g1) (systems g)" using removeSystem_systems [of "Obj s" g] rm by simp
  show ?case
  proof (cases r)
    case None
    with rm have "removeEach (s # ss) g = removeEach ss g1" by simp
    then show ?thesis using Cons.IH [of g1] g1 subseq_order.trans by auto
  next
    case (Some e)
    with rm g1 show ?thesis by simp
  qed
qed

lemma removeEach_quietly: "quietly g (snd (removeEach ss g))"
proof (induction ss arbitrary: g)
  case Nil
  show ?case by (simp add: quietly_refl)
next
  case (Cons s ss)
  obtain r g1 where rm: "removeSystem (Obj s) g = (r, g1)" by fastforce
  have g1: "quietly g g1" using removeSystem_quietly [of g "Obj s"] rm by simp
  show ?case
  proof (cases r)
    case None
    with rm have "removeEach (s # ss) g = removeEach ss g1" by simp
    then show ?thesis using Cons.IH [of g1] g1 quietly_trans by auto
  next
    case (Some e)
    with rm g1 show ?thesis by simp
  qed
qed

lemma removeEach_scenes:
  "scene (snd (removeEach ss g)) = scene g \<and> multiScenes (snd (removeEach ss g)) = multiScenes g"
proof (induction ss arbitrary: g)
  case Nil
  show ?case by simp
next
  case (Cons s ss)
  obtain r g1 where rm: "removeSystem (Obj s) g = (r, g1)" by fastforce
  have g1: "scene g1 = scene g \<and> multiScenes g1 = multiScenes g"
    using removeSystem_scenes [of "Obj s" g] rm by simp
  show ?case
  proof (cases r)
    case None
    with rm have "removeEach (s # ss) g = removeEach ss g1" by simp
    then show ?thesis using Cons.IH [of g1] g1 by auto
  next
    case (Some e)
    with rm g1 show ?thesis by simp
  qed
qed

lemma destroySystems_cases:
  "destroySystems g = removeEach (systems g) g \<and> fst (removeEach (systems g) g) \<noteq> None
   \<or> fst (removeEach (systems g) g) = None
     \<and> destroySystems g = (None, (snd (removeEach (systems g) g))\<lparr>systems := []\<rparr>)"
  by (cases "removeEach (systems g) g") (auto simp: destroySystems_def split: option.splits)

lemma destroySystems_systems: "subseq (systems (snd (destroySystems g))) (systems g)"
  using destroySystems_cases [of g] removeEach_systems [of "systems g" g] by auto

lemma destroySystems_quietly: "quietly g (snd (destroySystems g))"
  using destroySystems_cases [of g] removeEach_quietly [of g "systems g"]
  by (auto simp: quietly_def)

lemma destroySystems_scenes:
  "scene (snd (destroySystems g)) = scene g \<and> multiScenes (snd (destroySystems g)) = multiScenes g"
  using destroySystems_cases [of g] removeEach_scenes [of "systems g" g] by auto

lemma gameObjectResume_trace: "gameObjectResume gos tr = tr @ gameObjectResume gos []"
proof (induction gos arbitrary: tr)
  case Nil
  show ?case by simp
next
  case (Cons go gos)
  let ?msg = "\<lambda>c::component. ''gameObject: '' @ goName go @ '', '' @ name c @ '', onResume error''"
  show ?case
    using Cons.IH [of "hookPass OnResume ?msg (components go) tr"]
          Cons.IH [of "hookPass OnResume ?msg (components go) []"]
          hookPass_trace [of OnResume ?msg "components go" tr]
    by simp
qed

lemma calls_gameObjectPause: "calls Start (gameObjectPause gos []) = []"
proof (induction gos)
  case Nil
  show ?case by simp
next
  case (Cons go gos)
  let ?msg = "\<lambda>c::component. ''gameObject: '' @ goName go @ '', '' @ name c @ '', onResume error''"
  have "gameObjectPause (go # gos) [] = hookPass OnPause ?msg (components go) [] @ gameObjectPause gos []"
    using gameObjectPause_trace [of gos "hookPass OnPause ?msg (components go) []"] by simp
  then show ?case using Cons.IH by (simp add: calls_append calls_hookPass)
qed

lemma calls_gameObjectResume: "calls Start (gameObjectResume gos []) = []"
proof (induction gos)
  case Nil
  show ?case by simp
next
  case (Cons go gos)
  let ?msg = "\<lambda>c::component. ''gameObject: '' @ goName go @ '', '' @ name c @ '', onResume error''"
  have "gameObjectResume (go # gos) [] = hookPass OnResume ?msg (components go) [] @ gameObjectResume gos []"
    using gameObjectResume_trace [of gos "hookPass OnResume ?msg (components go) []"] by simp
  then show ?case using Cons.IH by (simp add: calls_append calls_hookPass)
qed

lemma triggerPause_frame:
  "systems (snd (triggerPause g)) = systems g \<and> scene (snd (triggerPause g)) = scene g
   \<and> multiScenes (snd (triggerPause g)) = multiScenes g \<and> quietly g (snd (triggerPause g))"
proof (cases "getAllGameObjects g")
  case (Inl x)
  then show ?thesis by (simp add: triggerPause_def quietly_refl)
next
  case (Inr gos)
  let ?M = "\<lambda>s::system. systemName s @ '', onPause error''"
  have tr: "trace (snd (triggerPause g)) =
      trace g @ (gameObjectPause gos [] @ hookPass OnPause ?M (systems g) [])"
    using hookPass_trace [of OnPause ?M "systems g" "gameObjectPause gos (trace g)"]
          gameObjectPause_trace [of gos "trace g"]
    by (simp add: triggerPause_def Inr)
  have "quietly g (snd (triggerPause g))"
    using tr by (rule quietly_append) (simp add: calls_append calls_gameObjectPause calls_hookPass)
  then show ?thesis by (simp add: triggerPause_def Inr)
qed

lemma triggerResume_frame:
  "systems (snd (triggerResume g)) = systems g \<and> scene (snd (triggerResume g)) = scene g
   \<and> multiScenes (snd (triggerResume g)) = multiScenes g \<and> quietly g (snd (triggerResume g))"
proof (cases "getAllGameObjects g")
  case (Inl x)
  then show ?thesis by (simp add: triggerResume_def quietly_refl)
next
  case (Inr gos)
  let ?M = "\<lambda>s::system. systemName s @ '', onResume error''"
  have tr: "trace (snd (triggerResume g)) =
      trace g @ (gameObjectResume gos [] @ hookPass OnResume ?M (systems g) [])"
    using hookPass_trace [of OnResume ?M "systems g" "gameObjectResume gos (trace g)"]
          gameObjectResume_trace [of gos "trace g"]
    by (simp add: triggerResume_def Inr)
  have "quietly g (snd (triggerResume g))"
    using tr by (rule quietly_append) (simp add: calls_append calls_gameObjectResume calls_hookPass)
  then show ?thesis by (simp add: triggerResume_def Inr)
qed

lemma calls_Cons: "calls h (ev # evs) = calls h [ev] @ calls h evs"
  using calls_append [of h "[ev]" evs] by simp

lemma quietly_after_log:
  assumes "calls Start [ev] = []" and "trace g1 = trace g" and "quietly (log ev g1) g2"
  shows "quietly g g2"
proof -
  from assms(3) obtain evs where e: "trace g2 = trace (log ev g1) @ evs" "calls Start evs = []"
    by (auto simp: quietly_def)
  have "trace g2 = trace g @ (ev # evs)"
    using e(1) assms(2) by (simp add: log_def)
  moreover have "calls Start (ev # evs) = []"
    using calls_Cons [of Start ev evs] assms(1) e(2) by simp
  ultimately show ?thesis by (rule quietly_append)
qed

lemma pause_frame:
  "systems (snd (pause g)) = systems g \<and> scene (snd (pause g)) = scene g
   \<and> multiScenes (snd (pause g)) = multiScenes g \<and> quietly g (snd (pause g))"
proof (cases "playing g")
  case False
  then show ?thesis by (simp add: pause_def quietly_refl)
next
  case True
  let ?g1 = "g\<lparr>playing := False\<rparr>"
  show ?thesis
  proof (cases "ticker g")
    case None
    with True have p: "snd (pause g) = ?g1" by (simp add: pause_def)
    have "quietly g ?g1" by (rule quietly_trace) simp
    then show ?thesis by (simp add: p)
  next
    case (Some t)
    let ?g2 = "log TickerPause ?g1"
    from True Some have p: "pause g = triggerPause ?g2" by (simp add: pause_def)
    note f = triggerPause_frame [of ?g2]
    from f have q1: "quietly ?g2 (snd (triggerPause ?g2))" by blast
    have q: "quietly g (snd (triggerPause ?g2))"
      by (rule quietly_after_log [OF _ _ q1]) simp_all
    have g2: "systems ?g2 = systems g" "scene ?g2 = scene g" "multiScenes ?g2 = multiScenes g"
      by (simp_all add: log_def)
    from f g2 q show ?thesis unfolding p by simp
  qed
qed

lemma start_frame:
  "systems (snd (start g)) = systems g \<and> scene (snd (start g)) = scene g
   \<and> multiScenes (snd (start g)) = multiScenes g \<and> quietly g (snd (start g))"
proof (cases "playing g")
  case True
  then show ?thesis by (simp add: start_def quietly_refl)
next
  case False
  show ?thesis
  proof (cases "ticker g")
    case None
    with False show ?thesis by (simp add: start_def quietly_refl)
  next
    case (Some t)
    have s: "snd (start g) = (log TickerStart g)\<lparr>playing := True, gameStarted := True\<rparr>"
      using False Some by (simp add: start_def)
    have "quietly g (snd (start g))"
      by (rule quietly_append [where evs = "[TickerStart]"]) (simp_all add: s log_def)
    then show ?thesis by (simp add: s log_def)
  qed
qed

lemma resume_frame:
  "systems (snd (resume g)) = systems g \<and> scene (snd (resume g)) = scene g
   \<and> multiScenes (snd (resume g)) = multiScenes g \<and> quietly g (snd (resume g))"
proof (cases "playing g")
  case True
  then show ?thesis by (simp add: resume_def quietly_refl)
next
  case False
  show ?thesis
  proof (cases "ticker g")
    case None
    with False show ?thesis by (simp add: resume_def quietly_refl)
  next
    case (Some t)
    let ?g1 = "log TickerStart g"
    obtain r g2 where tr: "triggerResume ?g1 = (r, g2)" by fastforce
    have f: "systems g2 = systems g" "scene g2 = scene g" "multiScenes g2 = multiScenes g"
        "quietly ?g1 g2"
      using triggerResume_frame [of ?g1] tr by (simp_all add: log_def)
    have q: "quietly g g2"
      by (rule quietly_after_log [OF _ _ f(4)]) simp_all
    have q': "quietly g (g2\<lparr>playing := True\<rparr>)" using q by (simp add: quietly_def)
    show ?thesis
    proof (cases r)
      case None
      then have "snd (resume g) = g2\<lparr>playing := True\<rparr>"
        using False Some tr by (simp add: resume_def)
      then show ?thesis using f q' by simp
    next
      case (Some e)
      then have "snd (resume g) = g2"
        using False \<open>ticker g = Some t\<close> tr by (simp add: resume_def)
      then show ?thesis using f q by simp
    qed
  qed
qed

lemma loadScene_cases:
  "snd (loadScene p g) = g
   \<or> (\<exists>sc m ps. lsScene p = Some sc
        \<and> snd (loadScene p g) =
            g\<lparr>scene := Some sc, trace := trace g @ [Emit ''sceneChanged'' sc m ps]\<rparr>)
   \<or> (\<exists>sc m ps ms. lsScene p = Some sc \<and> multiScenes g = Some ms
        \<and> snd (loadScene p g) =
            g\<lparr>multiScenes := Some (ms @ [sc]),
              trace := trace g @ [Emit ''sceneChanged'' sc m ps]\<rparr>)"
proof (cases "lsScene p")
  case None
  then show ?thesis by (simp add: loadScene_def)
next
  case (Some sc)
  let ?mode = "case lsMode p of None \<Rightarrow> SINGLE | Some m \<Rightarrow> m"
  let ?ps = "case lsParams p of None \<Rightarrow> [] | Some ps \<Rightarrow> ps"
  show ?thesis
  proof (cases ?mode)
    case SINGLE
    then have "snd (loadScene p g) =
        g\<lparr>scene := Some sc, trace := trace g @ [Emit ''sceneChanged'' sc SINGLE ?ps]\<rparr>"
      by (simp add: loadScene_def Some log_def)
    with Some show ?thesis by blast
  next
    case MULTI_CANVAS
    show ?thesis
    proof (cases "multiScenes g")
      case None
      then show ?thesis by (simp add: loadScene_def Some MULTI_CANVAS)
    next
      case (Some ms)
      then have "snd (loadScene p g) =
          g\<lparr>multiScenes := Some (ms @ [sc]),
            trace := trace g @ [Emit ''sceneChanged'' sc MULTI_CANVAS ?ps]\<rparr>"
        by (simp add: loadScene_def \<open>lsScene p = Some sc\<close> MULTI_CANVAS log_def)
      with Some \<open>lsScene p = Some sc\<close> show ?thesis by blast
    qed
  qed
qed

lemma loadScene_frame:
  "systems (snd (loadScene p g)) = systems g \<and> quietly g (snd (loadScene p g))"
proof -
  consider "snd (loadScene p g) = g"
    | sc m ps where "snd (loadScene p g) =
            g\<lparr>scene := Some sc, trace := trace g @ [Emit ''sceneChanged'' sc m ps]\<rparr>"
    | sc m ps ms where "snd (loadScene p g) =
            g\<lparr>multiScenes := Some (ms @ [sc]),
              trace := trace g @ [Emit ''sceneChanged'' sc m ps]\<rparr>"
    using loadScene_cases [of p g] by blast
  then show ?thesis
  proof cases
    case 1
    then show ?thesis by (simp add: quietly_refl)
  next
    case (2 sc m ps)
    have "quietly g (snd (loadScene p g))"
      by (rule quietly_append [where evs = "[Emit ''sceneChanged'' sc m ps]"]) (simp_all add: 2)
    then show ?thesis by (simp add: 2)
  next
    case (3 sc m ps ms)
    have "quietly g (snd (loadScene p g))"
      by (rule quietly_append [where evs = "[Emit ''sceneChanged'' sc m ps]"]) (simp_all add: 3)
    then show ?thesis by (simp add: 3)
  qed
qed

lemma resolved_None_cases:
  "resolved S = None \<Longrightarrow>
   (\<exists>e. S = Function (Inl e)) \<or> (\<exists>s. S = Object s \<and> \<not> instanceOf s SystemClass)"
proof (cases S)
  case (Function made)
  assume "resolved S = None"
  with Function show ?thesis by (cases made) simp_all
next
  case (Object s)
  assume "resolved S = None"
  with Object show ?thesis by (simp split: if_splits)
qed

lemma addSystem_frame:
  "scene (snd (addSystem S g)) = scene g \<and> multiScenes (snd (addSystem S g)) = multiScenes g
   \<and> quietly g (snd (addSystem S g))
   \<and> (systems (snd (addSystem S g)) = systems g
      \<or> (\<exists>s. resolved S = Some s \<and> ctor s \<notin> ctor ` set (systems g)
             \<and> systems (snd (addSystem S g)) = systems g @ [s\<lparr>game := Some (gameId g)\<rparr>]))"
proof (cases "resolved S")
  case None
  then consider e where "S = Function (Inl e)"
    | s where "S = Object s" "\<not> instanceOf s SystemClass"
    using resolved_None_cases by blast
  then show ?thesis
  proof cases
    case 1
    then show ?thesis by (simp add: addSystem_new_throws quietly_refl)
  next
    case 2
    have "quietly g (log (ConsoleWarn ''can only add System'') g)"
      by (rule quietly_append [where evs = "[ConsoleWarn ''can only add System'']"])
         (simp_all add: log_def)
    then show ?thesis by (simp add: 2 addSystem_not_a_system log_def)
  qed
next
  case (Some s)
  show ?thesis
  proof (cases "ctor s \<in> ctor ` set (systems g)")
    case True
    let ?w = "ConsoleWarn (systemName s @ '' System has been added'')"
    have "quietly g (log ?w g)"
      by (rule quietly_append [where evs = "[?w]"]) (simp_all add: log_def)
    then show ?thesis by (simp add: addSystem_duplicate [OF Some True] log_def)
  next
    case False
    show ?thesis
    proof (cases "hooks s Init = Some Throws")
      case True
      have "quietly g (g\<lparr>trace := trace g @ [Invoke (ref s) Init]\<rparr>)"
        by (rule quietly_append [where evs = "[Invoke (ref s) Init]"]) simp_all
      then show ?thesis by (simp add: addSystem_init_throws [OF Some False True])
    next
      case init: False
      let ?evs = "(if hooks s Init = None then [] else [Invoke (ref s) Init])
                @ [SetSystemObserver (ref s) (ctor s), InitObserver (ctor s)]
                @ guarded s Awake (systemName s @ '' awake error'') []"
      have c: "calls Start ?evs = []" by (simp add: calls_append calls_guarded)
      have e: "trace (snd (addSystem S g)) = trace g @ ?evs"
        by (simp add: addSystem_accepted [OF Some False init])
      have "quietly g (snd (addSystem S g))"
        using e c by (rule quietly_append)
      then show ?thesis
        using Some False by (simp add: addSystem_accepted [OF Some False init])
    qed
  qed
qed

lemma tick_systems: "systems (snd (tick e g)) = systems g"
  by (subst tick_frame) simp


lemma triggerPause_playing: "playing (snd (triggerPause g)) = playing g"
  by (cases "getAllGameObjects g") (simp_all add: triggerPause_def)

lemma pause_playing: "\<not> playing (snd (pause g))"
proof (cases "playing g")
  case False
  then show ?thesis by (simp add: pause_def)
next
  case True
  show ?thesis
  proof (cases "ticker g")
    case None
    with True show ?thesis by (simp add: pause_def)
  next
    case (Some t)
    with True have "pause g = triggerPause (log TickerPause (g\<lparr>playing := False\<rparr>))"
      by (simp add: pause_def)
    then show ?thesis by (simp add: triggerPause_playing log_def)
  qed
qed

lemma removeSystem_playing: "playing (snd (removeSystem a g)) = playing g"
proof (cases "resolvedSystem a g")
  case None
  then show ?thesis by (simp add: removeSystem_nothing)
next
  case (Some s)
  show ?thesis
  proof (cases "hooks s Destroy = Some Throws")
    case True
    show ?thesis by (simp add: removeSystem_throws [OF Some True])
  next
    case False
    show ?thesis by (simp add: removeSystem_removes [OF Some False])
  qed
qed

lemma removeEach_playing: "playing (snd (removeEach ss g)) = playing g"
proof (induction ss arbitrary: g)
  case Nil
  show ?case by simp
next
  case (Cons s ss)
  obtain r g1 where rm: "removeSystem (Obj s) g = (r, g1)" by fastforce
  have g1: "playing g1 = playing g" using removeSystem_playing [of "Obj s" g] rm by simp
  show ?case
  proof (cases r)
    case None
    with rm have "removeEach (s # ss) g = removeEach ss g1" by simp
    then show ?thesis using Cons.IH [of g1] g1 by simp
  next
    case (Some e)
    with rm g1 show ?thesis by simp
  qed
qed

lemma destroySystems_playing: "playing (snd (destroySystems g)) = playing g"
  using destroySystems_cases [of g] removeEach_playing [of "systems g" g] by auto

text \<open>\<^verbatim>\<open>destroy\<close>, by the step at which it stops.\<close>

lemma destroy_cases:
  fixes g :: Game
  defines "g1 \<equiv> snd (pause (log RemoveAllListeners g))"
  shows "(fst (pause (log RemoveAllListeners g)) \<noteq> None
            \<and> destroy g = pause (log RemoveAllListeners g))
       \<or> (fst (pause (log RemoveAllListeners g)) = None \<and> scene g = None
            \<and> destroy g =
                (Some (TypeError ''Cannot read properties of null (reading destroy)''), g1))
       \<or> (\<exists>s. fst (pause (log RemoveAllListeners g)) = None \<and> scene g = Some s
            \<and> fst (destroySystems (log (SceneDestroy s) g1)) \<noteq> None
            \<and> destroy g = destroySystems (log (SceneDestroy s) g1))
       \<or> (\<exists>s. fst (pause (log RemoveAllListeners g)) = None \<and> scene g = Some s
            \<and> fst (destroySystems (log (SceneDestroy s) g1)) = None
            \<and> destroy g =
                (None, (snd (destroySystems (log (SceneDestroy s) g1)))
                         \<lparr>ticker := None, scene := None, canvas := None, multiScenes := None\<rparr>))"
proof -
  obtain r p where p: "pause (log RemoveAllListeners g) = (r, p)" by fastforce
  have g1: "g1 = p" by (simp add: g1_def p)
  have sc: "scene p = scene g"
    using pause_frame [of "log RemoveAllListeners g"] unfolding p by (simp add: log_def)
  show ?thesis
  proof (cases r)
    case (Some e)
    then show ?thesis by (simp add: destroy_def p)
  next
    case None
    show ?thesis
    proof (cases "scene g")
      case nosc: None
      then show ?thesis using None sc by (simp add: destroy_def p g1)
    next
      case (Some s)
      obtain r2 d where d: "destroySystems (log (SceneDestroy s) p) = (r2, d)" by fastforce
      show ?thesis
      proof (cases r2)
        case None
        with \<open>r = None\<close> Some sc d show ?thesis by (simp add: destroy_def p g1)
      next
        case e: (Some e)
        with \<open>r = None\<close> Some sc d show ?thesis by (simp add: destroy_def p g1)
      qed
    qed
  qed
qed

lemma destroy_frame:
  "subseq (systems (snd (destroy g))) (systems g) \<and> quietly g (snd (destroy g))
   \<and> (scene (snd (destroy g)) = scene g \<and> multiScenes (snd (destroy g)) = multiScenes g
      \<or> scene (snd (destroy g)) = None \<and> multiScenes (snd (destroy g)) = None)"
proof -
  let ?g0 = "log RemoveAllListeners g"
  let ?g1 = "snd (pause ?g0)"
  note pf = pause_frame [of ?g0]
  from pf have q01: "quietly ?g0 ?g1" by blast
  have q1: "quietly g ?g1"
    by (rule quietly_after_log [OF _ _ q01]) simp_all
  have s1: "systems ?g1 = systems g" "scene ?g1 = scene g" "multiScenes ?g1 = multiScenes g"
    using pf by (simp_all add: log_def)
  have after: "subseq (systems (snd (destroySystems (log (SceneDestroy s) ?g1)))) (systems g)
      \<and> quietly g (snd (destroySystems (log (SceneDestroy s) ?g1)))
      \<and> scene (snd (destroySystems (log (SceneDestroy s) ?g1))) = scene g
      \<and> multiScenes (snd (destroySystems (log (SceneDestroy s) ?g1))) = multiScenes g" for s
  proof -
    let ?g2 = "log (SceneDestroy s) ?g1"
    have q12: "quietly ?g1 (snd (destroySystems ?g2))"
      by (rule quietly_after_log [OF _ _ destroySystems_quietly [of ?g2]]) simp_all
    have "quietly g (snd (destroySystems ?g2))" using q1 q12 by (rule quietly_trans)
    moreover have "subseq (systems (snd (destroySystems ?g2))) (systems g)"
      using destroySystems_systems [of ?g2] s1 by (simp add: log_def)
    moreover have "scene (snd (destroySystems ?g2)) = scene g"
        "multiScenes (snd (destroySystems ?g2)) = multiScenes g"
      using destroySystems_scenes [of ?g2] s1 by (simp_all add: log_def)
    ultimately show ?thesis by blast
  qed
  consider
      "destroy g = pause ?g0"
    | "snd (destroy g) = ?g1"
    | s where "destroy g = destroySystems (log (SceneDestroy s) ?g1)"
    | s where "snd (destroy g) = (snd (destroySystems (log (SceneDestroy s) ?g1)))
                         \<lparr>ticker := None, scene := None, canvas := None, multiScenes := None\<rparr>"
    using destroy_cases [of g] by (metis snd_conv)
  then show ?thesis
  proof cases
    case 1
    then show ?thesis using q1 s1 by simp
  next
    case 2
    then show ?thesis using q1 s1 by simp
  next
    case (3 s)
    then show ?thesis using after [of s] by simp
  next
    case (4 s)
    have "quietly g (snd (destroy g))" using after [of s] by (simp add: 4 quietly_def)
    then show ?thesis using after [of s] by (simp add: 4)
  qed
qed












section \<open>The registry holds one instance per constructor\<close>

lemma exec_systems:
  "subseq (systems (exec c g)) (systems g)
   \<or> (\<exists>S s. c = CallAddSystem S \<and> resolved S = Some s \<and> ctor s \<notin> ctor ` set (systems g)
        \<and> systems (exec c g) = systems g @ [s\<lparr>game := Some (gameId g)\<rparr>])"
proof (cases c)
  case (CallAddSystem S)
  then show ?thesis using addSystem_frame [of S g] by auto
next
  case (CallRemoveSystem a)
  then show ?thesis using removeSystem_systems [of a g] by simp
next
  case CallStart
  then show ?thesis using start_frame [of g] by simp
next
  case CallPause
  then show ?thesis using pause_frame [of g] by simp
next
  case CallResume
  then show ?thesis using resume_frame [of g] by simp
next
  case (CallTick e)
  then show ?thesis by (simp add: tick_systems)
next
  case (CallLoadScene p)
  then show ?thesis using loadScene_frame [of p g] by simp
next
  case CallDestroySystems
  then show ?thesis using destroySystems_systems [of g] by simp
next
  case CallDestroy
  then show ?thesis using destroy_frame [of g] by simp
qed

lemma exec_distinct_ctor:
  assumes "distinct (map ctor (systems g))"
  shows "distinct (map ctor (systems (exec c g)))"
proof -
  consider "subseq (systems (exec c g)) (systems g)"
    | s where "ctor s \<notin> ctor ` set (systems g)"
        "systems (exec c g) = systems g @ [s\<lparr>game := Some (gameId g)\<rparr>]"
    using exec_systems [of c g] by blast
  then show ?thesis
  proof cases
    case 1
    then have "subseq (map ctor (systems (exec c g))) (map ctor (systems g))"
      by (rule subseq_map)
    then show ?thesis using assms by (rule subseq_distinct)
  next
    case (2 s)
    then show ?thesis using assms by simp
  qed
qed

lemma run_distinct_ctor:
  "distinct (map ctor (systems g)) \<Longrightarrow> distinct (map ctor (systems (run cs g)))"
proof (induction cs arbitrary: g)
  case Nil
  then show ?case by (simp add: run_def)
next
  case (Cons c cs)
  have "distinct (map ctor (systems (exec c g)))" using Cons.prems by (rule exec_distinct_ctor)
  then have "distinct (map ctor (systems (run cs (exec c g))))" by (rule Cons.IH)
  then show ?case by (simp add: run_def)
qed

lemma addEach_distinct_ctor:
  "distinct (map ctor (systems g)) \<Longrightarrow> distinct (map ctor (systems (snd (addEach ss g))))"
proof (induction ss arbitrary: g)
  case Nil
  then show ?case by simp
next
  case (Cons s ss)
  obtain r g1 where a: "addSystem (Object s) g = (r, g1)" by fastforce
  have d: "distinct (map ctor (systems g1))"
    using exec_distinct_ctor [OF Cons.prems, of "CallAddSystem (Object s)"] a by simp
  show ?case
  proof (cases r)
    case (Inl e)
    with a d show ?thesis by simp
  next
    case (Inr x)
    with a have "addEach (s # ss) g = addEach ss g1" by simp
    then show ?thesis using Cons.IH [OF d] by simp
  qed
qed

lemma newGame_distinct_ctor: "distinct (map ctor (systems (snd (newGame this st p))))"
proof -
  let ?g0 = "initTicker
            \<lparr>gameId = this, scene = None, canvas = None, playing = False, gameStarted = False,
             multiScenes = Some [],
             ticker = Some \<lparr>tickerAutoStart = False,
                            tickerFrameRate = (case frameRate p of None \<Rightarrow> 120 | Some r \<Rightarrow> r)\<rparr>,
             systems = [], trace = [], objStarted = st\<rparr>"
  let ?ss = "case initialSystems p of None \<Rightarrow> [] | Some ss \<Rightarrow> ss"
  let ?ls = "\<lparr>lsScene = Some \<lparr>sceneName = ''scene'', gameObjects = []\<rparr>,
              lsMode = None, lsParams = None\<rparr>"
  obtain r g1 where a: "addEach ?ss ?g0 = (r, g1)" by fastforce
  have "distinct (map ctor (systems ?g0))" by (simp add: initTicker_def log_def)
  then have d1: "distinct (map ctor (systems g1))"
    using addEach_distinct_ctor [of ?g0 ?ss] a by simp
  have d2: "distinct (map ctor (systems (snd (loadScene ?ls g1))))"
    using d1 loadScene_frame [of ?ls g1] by simp
  have d3: "distinct (map ctor (systems (snd (start g'))))"
    if "distinct (map ctor (systems g'))" for g'
    using that start_frame [of g'] by simp
  have ls: "fst (loadScene ?ls g1) = None" by (simp add: loadScene_def)
  show ?thesis
  proof (cases r)
    case (Some e)
    with a d1 show ?thesis by (simp add: newGame_def Let_def)
  next
    case None
    obtain g2 where l: "loadScene ?ls g1 = (None, g2)" using ls by (cases "loadScene ?ls g1") simp
    have dg2: "distinct (map ctor (systems g2))" using d2 l by simp
    show ?thesis
      using None a l d1 dg2 d3 [OF d1] d3 [OF dg2]
      by (simp add: newGame_def Let_def)
  qed
qed

section \<open>The started flags through a sequence of calls\<close>





section \<open>The claims\<close>

subsection \<open>C3: the two passes of a frame tick\<close>



subsection \<open>C9: a frame tick without a primary scene\<close>

text \<open>
  C9. When the primary scene is absent, the frame tick returns normally and does not
  dispatch to any Component: its events are exactly those of the two passes over the
  Systems (which are still dispatched), its hook calls are exactly those that
  \<open>perFrameUpdate\<close> prescribes for the registered Systems followed by their \<^verbatim>\<open>lateUpdate\<close>
  calls, so the calls of \<^verbatim>\<open>start\<close>, \<^verbatim>\<open>update\<close> and \<^verbatim>\<open>lateUpdate\<close> are exactly those on the
  registered Systems (\<^verbatim>\<open>start\<close> on those that are units not yet started, once for each
  object); the secondary scenes are left as they were, and no \<^verbatim>\<open>started\<close> flag is set but
  those of the registered Systems, so that the Components of the secondary scenes are not
  started.
\<close>

theorem tick_without_primary_scene:
  assumes "scene g = None"
  shows "fst (tick e g) = None
     \<and> newEvents g (snd (tick e g)) =
         snd (updatePass (\<lambda>s. systemName s @ '' update error'') (systems g) (objStarted g) [])
         @ hookPass LateUpdate (\<lambda>s. systemName s @ '' lateUpdate error'') (systems g) []
     \<and> (\<forall>ev\<in>set (newEvents g (snd (tick e g))). targets ev (systems g))
     \<and> hookCalls (newEvents g (snd (tick e g))) =
         perFrameUpdate (objStarted g) (systems g)
         @ map (\<lambda>s. (ref s, LateUpdate)) (filter (\<lambda>s. hooks s LateUpdate \<noteq> None) (systems g))
     \<and> calls Start (newEvents g (snd (tick e g))) =
         having Start (firstByRef (filter (\<lambda>s. isUnit s \<and> \<not> objStarted g (ref s)) (systems g)))
     \<and> calls Update (newEvents g (snd (tick e g))) = having Update (systems g)
     \<and> calls LateUpdate (newEvents g (snd (tick e g))) = having LateUpdate (systems g)
     \<and> scene (snd (tick e g)) = None
     \<and> multiScenes (snd (tick e g)) = multiScenes g
     \<and> objStarted (snd (tick e g)) = startedBy (objStarted g) (systems g)"
proof -
  let ?su = "snd (updatePass (\<lambda>s. systemName s @ '' update error'') (systems g) (objStarted g) [])"
  let ?sl = "hookPass LateUpdate (\<lambda>s. systemName s @ '' lateUpdate error'') (systems g) []"
  have evs: "newEvents g (snd (tick e g)) = ?su @ ?sl"
    by (simp add: tick_sceneless [OF assms] newEvents_def)
  have tg: "\<forall>ev\<in>set (?su @ ?sl). targets ev (systems g)"
  proof
    fix ev assume "ev \<in> set (?su @ ?sl)"
    then consider "ev \<in> set ?su" | "ev \<in> set ?sl" by auto
    then show "targets ev (systems g)"
    proof cases
      case 1
      then show ?thesis by (rule targets_updatePass)
    next
      case 2
      then show ?thesis by (rule targets_hookPass)
    qed
  qed
  have hc: "hookCalls (?su @ ?sl) =
         perFrameUpdate (objStarted g) (systems g)
         @ map (\<lambda>s. (ref s, LateUpdate)) (filter (\<lambda>s. hooks s LateUpdate \<noteq> None) (systems g))"
    by (simp add: hookCalls_append hookCalls_updatePass hookCalls_hookPass)
  have c1: "calls Start (?su @ ?sl) =
      having Start (firstByRef (filter (\<lambda>s. isUnit s \<and> \<not> objStarted g (ref s)) (systems g)))"
    by (simp add: calls_append calls_updatePass calls_hookPass perFrameUpdate_starts_exact)
  have c2: "calls Update (?su @ ?sl) = having Update (systems g)"
    by (simp add: calls_append calls_updatePass calls_hookPass)
  have c3: "calls LateUpdate (?su @ ?sl) = having LateUpdate (systems g)"
    by (simp add: calls_append calls_updatePass calls_hookPass)
  have r: "fst (tick e g) = None" "scene (snd (tick e g)) = None"
      "multiScenes (snd (tick e g)) = multiScenes g"
      "objStarted (snd (tick e g)) = startedBy (objStarted g) (systems g)"
    by (simp_all add: tick_sceneless [OF assms] assms)
  show ?thesis
    unfolding evs using tg hc c1 c2 c3 r by blast
qed

text \<open>
  The theorem at the game \<open>secondaryOnly\<close>: no primary scene, Component 22 (with \<^verbatim>\<open>start\<close>,
  \<^verbatim>\<open>update\<close> and \<^verbatim>\<open>lateUpdate\<close> hooks) in a secondary scene, Systems 10, 11, 12.
\<close>

theorem tick_without_primary_scene_witness:
  "scene secondaryOnly = None
   \<and> fst (tick 0 secondaryOnly) = None
   \<and> hookCalls (newEvents secondaryOnly (snd (tick 0 secondaryOnly))) =
       [(10, Start), (10, Update), (11, Start), (11, Update), (11, LateUpdate), (12, LateUpdate)]
   \<and> calls Start (newEvents secondaryOnly (snd (tick 0 secondaryOnly))) = [10, 11]
   \<and> calls Update (newEvents secondaryOnly (snd (tick 0 secondaryOnly))) = [10, 11]
   \<and> calls LateUpdate (newEvents secondaryOnly (snd (tick 0 secondaryOnly))) = [11, 12]
   \<and> map ref (sceneComponents secondaryOnly) = [22]
   \<and> map (objStarted (snd (tick 0 secondaryOnly))) [10, 11, 12, 22] = [True, True, True, False]"
proof -
  have h: "scene secondaryOnly = None" by code_simp
  have hc: "perFrameUpdate (objStarted secondaryOnly) (systems secondaryOnly)
         @ map (\<lambda>s. (ref s, LateUpdate))
             (filter (\<lambda>s. hooks s LateUpdate \<noteq> None) (systems secondaryOnly)) =
       [(10, Start), (10, Update), (11, Start), (11, Update), (11, LateUpdate), (12, LateUpdate)]"
    by code_simp
  have s: "having Start (firstByRef (filter (\<lambda>s. isUnit s \<and> \<not> objStarted secondaryOnly (ref s))
                                        (systems secondaryOnly))) = [10, 11]"
    by code_simp
  have u: "having Update (systems secondaryOnly) = [10, 11]" by code_simp
  have l: "having LateUpdate (systems secondaryOnly) = [11, 12]" by code_simp
  have c: "map ref (sceneComponents secondaryOnly) = [22]" by code_simp
  have d: "map (startedBy (objStarted secondaryOnly) (systems secondaryOnly)) [10, 11, 12, 22] =
      [True, True, True, False]" by code_simp
  from tick_without_primary_scene [OF h, of 0]
  have "objStarted (snd (tick 0 secondaryOnly)) =
      startedBy (objStarted secondaryOnly) (systems secondaryOnly)" by blast
  with d have d': "map (objStarted (snd (tick 0 secondaryOnly))) [10, 11, 12, 22] =
      [True, True, True, False]" by simp
  show ?thesis
    using tick_without_primary_scene [OF h, of 0] unfolding hc s u l using h c d' by blast
qed

subsection \<open>C8: loading a scene\<close>

text \<open>
  C8. \<^verbatim>\<open>loadScene\<close> without a scene changes nothing and emits nothing. With a scene and
  mode SINGLE (given or by default) it sets the primary scene and emits one
  \<^verbatim>\<open>sceneChanged\<close> event with the scene, the mode and the params (\<^verbatim>\<open>{}\<close> by default);
  nothing else changes: the previous scene is not destroyed, the secondary scenes are as
  before. With mode MULTI_CANVAS it appends the scene to the secondary scenes \<open>ms\<close> and emits
  the one event; the primary scene is as before.
\<close>

theorem loadScene_modes:
  "loadScene \<lparr>lsScene = None, lsMode = m, lsParams = ps\<rparr> g = (None, g)
   \<and> (m = None \<or> m = Some SINGLE \<longrightarrow>
        loadScene \<lparr>lsScene = Some sc, lsMode = m, lsParams = ps\<rparr> g =
          (None, g\<lparr>scene := Some sc,
                    trace := trace g @ [Emit ''sceneChanged'' sc SINGLE
                                          (case ps of None \<Rightarrow> [] | Some x \<Rightarrow> x)]\<rparr>)
        \<and> multiScenes (snd (loadScene \<lparr>lsScene = Some sc, lsMode = m, lsParams = ps\<rparr> g))
            = multiScenes g
        \<and> newEvents g (snd (loadScene \<lparr>lsScene = Some sc, lsMode = m, lsParams = ps\<rparr> g))
            = [Emit ''sceneChanged'' sc SINGLE (case ps of None \<Rightarrow> [] | Some x \<Rightarrow> x)])
   \<and> (multiScenes g = Some ms \<longrightarrow>
        loadScene \<lparr>lsScene = Some sc, lsMode = Some MULTI_CANVAS, lsParams = ps\<rparr> g =
          (None, g\<lparr>multiScenes := Some (ms @ [sc]),
                    trace := trace g @ [Emit ''sceneChanged'' sc MULTI_CANVAS
                                          (case ps of None \<Rightarrow> [] | Some x \<Rightarrow> x)]\<rparr>)
        \<and> scene (snd (loadScene \<lparr>lsScene = Some sc, lsMode = Some MULTI_CANVAS,
                                   lsParams = ps\<rparr> g)) = scene g
        \<and> newEvents g (snd (loadScene \<lparr>lsScene = Some sc, lsMode = Some MULTI_CANVAS,
                                       lsParams = ps\<rparr> g))
            = [Emit ''sceneChanged'' sc MULTI_CANVAS (case ps of None \<Rightarrow> [] | Some x \<Rightarrow> x)])"
proof (intro conjI impI)
  show "loadScene \<lparr>lsScene = None, lsMode = m, lsParams = ps\<rparr> g = (None, g)"
    by (simp add: loadScene_def)
next
  assume single: "m = None \<or> m = Some SINGLE"
  let ?p = "\<lparr>lsScene = Some sc, lsMode = m, lsParams = ps\<rparr>"
  from single have mode: "(case lsMode ?p of None \<Rightarrow> SINGLE | Some m \<Rightarrow> m) = SINGLE" by auto
  show eq: "loadScene ?p g =
          (None, g\<lparr>scene := Some sc,
                    trace := trace g @ [Emit ''sceneChanged'' sc SINGLE
                                          (case ps of None \<Rightarrow> [] | Some x \<Rightarrow> x)]\<rparr>)"
    unfolding loadScene_def Let_def mode by (simp add: log_def)
  show "multiScenes (snd (loadScene ?p g)) = multiScenes g" by (simp add: eq)
  show "newEvents g (snd (loadScene ?p g))
      = [Emit ''sceneChanged'' sc SINGLE (case ps of None \<Rightarrow> [] | Some x \<Rightarrow> x)]"
    by (simp add: eq newEvents_def)
next
  assume ms: "multiScenes g = Some ms"
  let ?p = "\<lparr>lsScene = Some sc, lsMode = Some MULTI_CANVAS, lsParams = ps\<rparr>"
  show eq: "loadScene ?p g =
          (None, g\<lparr>multiScenes := Some (ms @ [sc]),
                    trace := trace g @ [Emit ''sceneChanged'' sc MULTI_CANVAS
                                          (case ps of None \<Rightarrow> [] | Some x \<Rightarrow> x)]\<rparr>)"
    by (simp add: loadScene_def log_def ms)
  show "scene (snd (loadScene ?p g)) = scene g" by (simp add: eq)
  show "newEvents g (snd (loadScene ?p g))
      = [Emit ''sceneChanged'' sc MULTI_CANVAS (case ps of None \<Rightarrow> [] | Some x \<Rightarrow> x)]"
    by (simp add: eq newEvents_def)
qed

text \<open>
  The theorem at a game fresh from its constructor, and the scenario of the spec: scene
  \<open>sceneOne\<close> loaded in mode SINGLE, then \<open>sceneTwo\<close> in mode MULTI_CANVAS. The primary scene is
  \<open>sceneOne\<close>, the GameObjects of \<open>sceneTwo\<close> come after those of \<open>sceneOne\<close>, two events have
  been emitted.
\<close>

theorem loadScene_modes_witness:
  "multiScenes freshGame = Some []
   \<and> scene freshGame = Some \<lparr>sceneName = ''scene'', gameObjects = []\<rparr>
   \<and> loadScene \<lparr>lsScene = None, lsMode = Some SINGLE, lsParams = None\<rparr> freshGame
       = (None, freshGame)
   \<and> loadScene \<lparr>lsScene = Some sceneOne, lsMode = None, lsParams = None\<rparr> freshGame
       = (None, freshGame\<lparr>scene := Some sceneOne,
                           trace := trace freshGame @ [Emit ''sceneChanged'' sceneOne SINGLE []]\<rparr>)
   \<and> loadScene \<lparr>lsScene = Some sceneTwo, lsMode = Some MULTI_CANVAS,
                  lsParams = Some [(''level'', ''2'')]\<rparr> freshGame
       = (None, freshGame\<lparr>multiScenes := Some [sceneTwo],
                           trace := trace freshGame
                             @ [Emit ''sceneChanged'' sceneTwo MULTI_CANVAS [(''level'', ''2'')]]\<rparr>)
   \<and> scene populated = Some sceneOne
   \<and> getAllGameObjects populated = Inr (gameObjects sceneOne @ gameObjects sceneTwo)
   \<and> newEvents threeSystems populated =
       [Emit ''sceneChanged'' sceneOne SINGLE [], Emit ''sceneChanged'' sceneTwo MULTI_CANVAS []]"
proof -
  have ms: "multiScenes freshGame = Some []" by code_simp
  have sc: "scene freshGame = Some \<lparr>sceneName = ''scene'', gameObjects = []\<rparr>" by code_simp
  have p: "scene populated = Some sceneOne"
      "getAllGameObjects populated = Inr (gameObjects sceneOne @ gameObjects sceneTwo)"
      "newEvents threeSystems populated =
         [Emit ''sceneChanged'' sceneOne SINGLE [], Emit ''sceneChanged'' sceneTwo MULTI_CANVAS []]"
    by code_simp+
  show ?thesis
    using loadScene_modes [of "Some SINGLE" None freshGame sceneOne "[]"]
          loadScene_modes [of None None freshGame sceneOne "[]"]
          loadScene_modes [of None "Some [(''level'', ''2'')]" freshGame sceneTwo "[]"]
          ms sc p
    by simp
qed

subsection \<open>C5: one instance per concrete System type\<close>

text \<open>
  C5. A registration whose instance (given, or built by the given constructor) has the
  constructor of a registered System is rejected: \<^verbatim>\<open>addSystem\<close> returns \<^verbatim>\<open>undefined\<close> and
  changes nothing but the console, so the first instance stays and the registry keeps
  its length and contents. Hence no two registered Systems have the same constructor: the
  property is kept by every sequence of calls and holds from the constructor of the game
  on.
\<close>

theorem one_instance_per_type:
  "(resolved S = Some s \<and> ctor s \<in> ctor ` set (systems g) \<longrightarrow>
      fst (addSystem S g) = Inr None
      \<and> systems (snd (addSystem S g)) = systems g
      \<and> snd (addSystem S g) =
          g\<lparr>trace := trace g @ [ConsoleWarn (systemName s @ '' System has been added'')]\<rparr>)
   \<and> (distinct (map ctor (systems g)) \<longrightarrow> distinct (map ctor (systems (run cs g))))
   \<and> distinct (map ctor (systems (run cs (snd (newGame this st p)))))"
proof (intro conjI impI)
  assume a: "resolved S = Some s \<and> ctor s \<in> ctor ` set (systems g)"
  then have r: "resolved S = Some s" and d: "ctor s \<in> ctor ` set (systems g)" by blast+
  show "fst (addSystem S g) = Inr None"
    by (simp add: addSystem_duplicate [OF r d])
  show "systems (snd (addSystem S g)) = systems g"
    by (simp add: addSystem_duplicate [OF r d] log_def)
  show "snd (addSystem S g) =
          g\<lparr>trace := trace g @ [ConsoleWarn (systemName s @ '' System has been added'')]\<rparr>"
    by (simp add: addSystem_duplicate [OF r d] log_def)
next
  assume "distinct (map ctor (systems g))"
  then show "distinct (map ctor (systems (run cs g)))" by (rule run_distinct_ctor)
next
  show "distinct (map ctor (systems (run cs (snd (newGame this st p)))))"
    using newGame_distinct_ctor by (rule run_distinct_ctor)
qed

text \<open>
  The theorem at the game \<open>threeSystems\<close> (classes 100, 101, 102) and a second instance,
  13, of class 100, given as an instance.
\<close>

theorem one_instance_per_type_witness:
  "resolved (Object sysA2) = Some sysA2
   \<and> ctor sysA2 \<in> ctor ` set (systems threeSystems)
   \<and> map ref (systems threeSystems) = [10, 11, 12]
   \<and> fst (addSystem (Object sysA2) threeSystems) = Inr None
   \<and> systems (snd (addSystem (Object sysA2) threeSystems)) = systems threeSystems
   \<and> distinct (map ctor (systems threeSystems))
   \<and> distinct (map ctor (systems (run [CallAddSystem (Function (Inr sysA2)), CallTick 0,
                                         CallRemoveSystem (Fn 100),
                                         CallAddSystem (Object sysA2)] threeSystems)))"
proof -
  have r: "resolved (Object sysA2) = Some sysA2" by code_simp
  have d: "ctor sysA2 \<in> ctor ` set (systems threeSystems)" by code_simp
  have m: "map ref (systems threeSystems) = [10, 11, 12]" by code_simp
  have i: "distinct (map ctor (systems threeSystems))" by code_simp
  show ?thesis
    using one_instance_per_type
            [of "Object sysA2" sysA2 threeSystems
                "[CallAddSystem (Function (Inr sysA2)), CallTick 0, CallRemoveSystem (Fn 100),
                  CallAddSystem (Object sysA2)]"]
          r d m i
    by blast
qed

subsection \<open>C10: lookup by \<^verbatim>\<open>instanceof\<close>, registration and removal by identity\<close>

lemma resolvedSystem_Fn: "resolvedSystem (Fn c) g = Some t \<Longrightarrow> ctor t = c"
  using findIndex_found [of "\<lambda>s. ctor s = c" "systems g"]
  by (auto simp: resolvedSystem_def resolvedIndex_def split: if_splits)

lemma resolvedSystem_Fn_none:
  "\<forall>s\<in>set (systems g). ctor s \<noteq> c \<Longrightarrow> resolvedSystem (Fn c) g = None"
  using findIndex_none [of "\<lambda>s. ctor s = c" "systems g"]
  by (auto simp: resolvedSystem_def resolvedIndex_def)

lemma set_spliceOne: "i < length xs \<Longrightarrow> set xs = insert (xs ! i) (set (spliceOne i xs))"
proof -
  assume "i < length xs"
  then have "xs = take i xs @ xs ! i # drop (Suc i) xs" by (rule id_take_nth_drop)
  then have "set xs = set (take i xs @ xs ! i # drop (Suc i) xs)" by simp
  then show ?thesis by (simp add: spliceOne_def)
qed

lemma removeSystem_keeps_others:
  assumes "s \<in> set (systems g)" and "resolvedSystem a g \<noteq> Some s"
  shows "s \<in> set (systems (snd (removeSystem a g)))"
proof (cases "resolvedSystem a g")
  case None
  with assms(1) show ?thesis by (simp add: removeSystem_nothing)
next
  case (Some t)
  show ?thesis
  proof (cases "hooks t Destroy = Some Throws")
    case True
    with assms(1) show ?thesis by (simp add: removeSystem_throws [OF Some True])
  next
    case False
    let ?i = "nat (resolvedIndex a g)"
    have i: "?i < length (systems g)" and t: "systems g ! ?i = t"
      using Some resolvedIndex_range [of a g]
      by (auto simp: resolvedSystem_def split: if_splits)
    have "s \<noteq> t" using assms(2) Some by simp
    then have "s \<in> set (spliceOne ?i (systems g))"
      using set_spliceOne [OF i] assms(1) t by auto
    then show ?thesis by (simp add: removeSystem_removes [OF Some False])
  qed
qed

text \<open>
  C10. \<^verbatim>\<open>getSystem\<close> with a constructor \<open>c\<close> returns the first registered System that is an
  instance of \<open>c\<close> (\<^verbatim>\<open>instanceof\<close>), so a System whose class extends \<open>c\<close> is found. The
  duplicate check of \<^verbatim>\<open>addSystem\<close> compares constructors for identity: an instance whose
  constructor no registered System has is registered, also when a registered System is an
  instance of that constructor. \<^verbatim>\<open>removeSystem\<close> with a constructor \<open>c\<close> compares for
  identity too: it removes nothing when no registered System has \<open>c\<close> as its constructor,
  and it never removes a System whose constructor is another one.
\<close>

theorem lookup_by_instanceof_registry_by_identity:
  "(getSystem (Class c) g = None) = (\<forall>s\<in>set (systems g). \<not> instanceOf s c)
   \<and> (\<forall>s. getSystem (Class c) g = Some s \<longrightarrow>
         (\<exists>i<length (systems g). systems g ! i = s \<and> instanceOf s c
            \<and> (\<forall>j<i. \<not> instanceOf (systems g ! j) c)))
   \<and> (\<forall>s\<in>set (systems g). c \<in> set (bases s) \<longrightarrow> getSystem (Class c) g \<noteq> None)
   \<and> (resolved S = Some new \<and> ctor new \<notin> ctor ` set (systems g)
        \<and> hooks new Init \<noteq> Some Throws \<longrightarrow>
         fst (addSystem S g) = Inr (Some (new\<lparr>game := Some (gameId g)\<rparr>))
         \<and> systems (snd (addSystem S g)) = systems g @ [new\<lparr>game := Some (gameId g)\<rparr>])
   \<and> ((\<forall>s\<in>set (systems g). ctor s \<noteq> c) \<longrightarrow> removeSystem (Fn c) g = (None, g))
   \<and> (\<forall>s\<in>set (systems g). ctor s \<noteq> c \<longrightarrow> s \<in> set (systems (snd (removeSystem (Fn c) g))))"
proof (intro conjI allI impI ballI)
  show "(getSystem (Class c) g = None) = (\<forall>s\<in>set (systems g). \<not> instanceOf s c)"
    by (auto simp: getSystem_def find_None_iff)
next
  fix s assume "getSystem (Class c) g = Some s"
  then show "\<exists>i<length (systems g). systems g ! i = s \<and> instanceOf s c
            \<and> (\<forall>j<i. \<not> instanceOf (systems g ! j) c)"
    by (auto simp: getSystem_def find_Some_iff)
next
  fix s assume "s \<in> set (systems g)" "c \<in> set (bases s)"
  then have "\<exists>s\<in>set (systems g). instanceOf s c" by (auto simp: instanceOf_def)
  then show "getSystem (Class c) g \<noteq> None" by (auto simp: getSystem_def find_None_iff)
next
  assume a: "resolved S = Some new \<and> ctor new \<notin> ctor ` set (systems g)
        \<and> hooks new Init \<noteq> Some Throws"
  then have r: "resolved S = Some new" and n: "ctor new \<notin> ctor ` set (systems g)"
    and i: "hooks new Init \<noteq> Some Throws" by blast+
  show "fst (addSystem S g) = Inr (Some (new\<lparr>game := Some (gameId g)\<rparr>))"
    by (simp add: addSystem_accepted [OF r n i])
  show "systems (snd (addSystem S g)) = systems g @ [new\<lparr>game := Some (gameId g)\<rparr>]"
    by (simp add: addSystem_accepted [OF r n i])
next
  assume "\<forall>s\<in>set (systems g). ctor s \<noteq> c"
  then have "resolvedSystem (Fn c) g = None" by (rule resolvedSystem_Fn_none)
  then show "removeSystem (Fn c) g = (None, g)" by (rule removeSystem_nothing)
next
  fix s assume s: "s \<in> set (systems g)" and c: "ctor s \<noteq> c"
  have "resolvedSystem (Fn c) g \<noteq> Some s" using resolvedSystem_Fn [of c g s] c by blast
  with s show "s \<in> set (systems (snd (removeSystem (Fn c) g)))"
    by (rule removeSystem_keeps_others)
qed

text \<open>
  The theorem at the game \<open>subAndBase\<close>: System 14, of class 103 extending class 100,
  registered before System 10, of class 100. Both are registered; the lookup by class 100
  returns the instance of the subclass; removing by class 100 removes System 10 only, and
  then removes nothing.
\<close>

theorem lookup_by_instanceof_registry_by_identity_witness:
  "map ref (systems subAndBase) = [14, 10]
   \<and> map ctor (systems subAndBase) = [103, 100]
   \<and> map_option ref (getSystem (Class 100) subAndBase) = Some 14
   \<and> map ref (systems (snd (removeSystem (Fn 100) subAndBase))) = [14]
   \<and> removeSystem (Fn 100) (snd (removeSystem (Fn 100) subAndBase))
       = (None, snd (removeSystem (Fn 100) subAndBase))
   \<and> getSystem (Class 100) (snd (removeSystem (Fn 100) subAndBase)) \<noteq> None"
proof -
  let ?g1 = "snd (removeSystem (Fn 100) subAndBase)"
  have a: "map ref (systems subAndBase) = [14, 10]" by code_simp
  have b: "map ctor (systems subAndBase) = [103, 100]" by code_simp
  have c: "map_option ref (getSystem (Class 100) subAndBase) = Some 14" by code_simp
  have d: "map ref (systems ?g1) = [14]" by code_simp
  have e: "\<forall>s\<in>set (systems ?g1). ctor s \<noteq> 100" by code_simp
  have f: "\<forall>s\<in>set (systems ?g1). \<not> \<not> instanceOf s 100" by code_simp
  have g: "systems ?g1 \<noteq> []" using d by auto
  from lookup_by_instanceof_registry_by_identity [of 100 ?g1] e
  have h: "removeSystem (Fn 100) ?g1 = (None, ?g1)" by blast
  from lookup_by_instanceof_registry_by_identity [of 100 ?g1] f g
  have i: "getSystem (Class 100) ?g1 \<noteq> None" by (cases "systems ?g1") auto
  from a b c d h i show ?thesis by blast
qed

subsection \<open>C2: \<^verbatim>\<open>destroySystems\<close> and throwing \<^verbatim>\<open>destroy\<close> hooks\<close>

lemma removeEach_no_throw:
  "\<forall>s\<in>set (systems g). hooks s Destroy \<noteq> Some Throws \<Longrightarrow> fst (removeEach ss g) = None"
proof (induction ss arbitrary: g)
  case Nil
  show ?case by simp
next
  case (Cons s ss)
  show ?case
  proof (cases "resolvedSystem (Obj s) g")
    case None
    then have "removeEach (s # ss) g = removeEach ss g" by (simp add: removeSystem_nothing)
    then show ?thesis using Cons.IH [OF Cons.prems] by simp
  next
    case (Some t)
    then have "t \<in> set (systems g)" by (rule resolvedSystem_registered)
    then have nt: "hooks t Destroy \<noteq> Some Throws" using Cons.prems by blast
    let ?g1 = "snd (removeSystem (Obj s) g)"
    have r: "removeSystem (Obj s) g = (None, ?g1)"
      by (simp add: removeSystem_removes [OF Some nt])
    have "set (systems ?g1) \<subseteq> set (systems g)"
      using removeSystem_systems [of "Obj s" g] by (rule subseq_subset)
    then have "\<forall>s\<in>set (systems ?g1). hooks s Destroy \<noteq> Some Throws"
      using Cons.prems by blast
    then have "fst (removeEach ss ?g1) = None" by (rule Cons.IH)
    moreover have "removeEach (s # ss) g = removeEach ss ?g1"
      using r by (metis (no_types, lifting) removeEach.simps(2) old.prod.case option.simps(4))
    ultimately show ?thesis by simp
  qed
qed

lemma resolvedSystem_head:
  assumes "systems g = s # rest" and "instanceOf s SystemClass"
  shows "resolvedIndex (Obj s) g = 0" and "resolvedSystem (Obj s) g = Some s"
proof -
  show i: "resolvedIndex (Obj s) g = 0" using assms by (simp add: resolvedIndex_def)
  show "resolvedSystem (Obj s) g = Some s" using assms by (simp add: resolvedSystem_def i)
qed

text \<open>
  The loop of \<^verbatim>\<open>destroySystems\<close> on a registry of Systems: it stops at the first one whose
  \<^verbatim>\<open>destroy\<close> throws, which stays registered with those after it.
\<close>

lemma removeEach_stops:
  assumes "systems g = pre @ s # post"
      and "\<forall>x\<in>set (pre @ [s]). instanceOf x SystemClass"
      and "\<forall>x\<in>set pre. hooks x Destroy \<noteq> Some Throws"
      and "hooks s Destroy = Some Throws"
  shows "fst (removeEach (pre @ s # post) g) = Some (HookError (ref s) Destroy)
       \<and> systems (snd (removeEach (pre @ s # post) g)) = s # post"
  using assms
proof (induction pre arbitrary: g)
  case Nil
  then have sys: "systems g = s # post" and inst: "instanceOf s SystemClass" by simp_all
  have rs: "resolvedSystem (Obj s) g = Some s" using sys inst by (rule resolvedSystem_head(2))
  show ?case
    using sys by (simp add: removeSystem_throws [OF rs Nil.prems(4)])
next
  case (Cons p pre)
  then have sys: "systems g = p # (pre @ s # post)" and inst: "instanceOf p SystemClass"
    and nt: "hooks p Destroy \<noteq> Some Throws" by simp_all
  have rs: "resolvedSystem (Obj p) g = Some p" using sys inst by (rule resolvedSystem_head(2))
  have ri: "resolvedIndex (Obj p) g = 0" using sys inst by (rule resolvedSystem_head(1))
  let ?g1 = "snd (removeSystem (Obj p) g)"
  have r: "removeSystem (Obj p) g = (None, ?g1)"
    by (simp add: removeSystem_removes [OF rs nt])
  have sys1: "systems ?g1 = pre @ s # post"
    by (simp add: removeSystem_removes [OF rs nt] ri sys spliceOne_def)
  have step: "removeEach ((p # pre) @ s # post) g = removeEach (pre @ s # post) ?g1"
    using r by (metis (no_types, lifting) append_Cons removeEach.simps(2) old.prod.case
        option.simps(4))
  have "fst (removeEach (pre @ s # post) ?g1) = Some (HookError (ref s) Destroy)
       \<and> systems (snd (removeEach (pre @ s # post) ?g1)) = s # post"
    using sys1 Cons.prems(2,3,4) by (intro Cons.IH) simp_all
  then show ?case by (simp only: step)
qed

text \<open>
  C2, as amended. When \<^verbatim>\<open>destroySystems\<close> returns normally the registry is empty, and it
  returns normally when no registered System has a \<^verbatim>\<open>destroy\<close> hook that throws. When the
  \<^verbatim>\<open>destroy\<close> hook of a registered System throws (the registry holding Systems, those before
  it having hooks that do not throw), the exception escapes \<^verbatim>\<open>destroySystems\<close>: the Systems
  before it have been removed, it and the Systems after it stay registered.
\<close>

theorem destroySystems_empties_unless_destroy_throws:
  "(fst (destroySystems g) = None \<longrightarrow> systems (snd (destroySystems g)) = [])
   \<and> ((\<forall>s\<in>set (systems g). hooks s Destroy \<noteq> Some Throws) \<longrightarrow>
        fst (destroySystems g) = None \<and> systems (snd (destroySystems g)) = [])
   \<and> (systems g = pre @ s # post \<and> (\<forall>x\<in>set (pre @ [s]). instanceOf x SystemClass)
        \<and> (\<forall>x\<in>set pre. hooks x Destroy \<noteq> Some Throws) \<and> hooks s Destroy = Some Throws \<longrightarrow>
        fst (destroySystems g) = Some (HookError (ref s) Destroy)
        \<and> systems (snd (destroySystems g)) = s # post)"
proof (intro conjI impI)
  assume "fst (destroySystems g) = None"
  then show "systems (snd (destroySystems g)) = []"
    using destroySystems_cases [of g] by auto
next
  assume a: "\<forall>s\<in>set (systems g). hooks s Destroy \<noteq> Some Throws"
  then have n: "fst (removeEach (systems g) g) = None" by (rule removeEach_no_throw)
  then show "fst (destroySystems g) = None" using destroySystems_cases [of g] by auto
  from n show "systems (snd (destroySystems g)) = []" using destroySystems_cases [of g] by auto
next
  assume a: "systems g = pre @ s # post \<and> (\<forall>x\<in>set (pre @ [s]). instanceOf x SystemClass)
        \<and> (\<forall>x\<in>set pre. hooks x Destroy \<noteq> Some Throws) \<and> hooks s Destroy = Some Throws"
  then have sys: "systems g = pre @ s # post" by blast
  from a have "fst (removeEach (pre @ s # post) g) = Some (HookError (ref s) Destroy)
       \<and> systems (snd (removeEach (pre @ s # post) g)) = s # post"
    by (intro removeEach_stops) blast+
  then have r: "fst (removeEach (systems g) g) = Some (HookError (ref s) Destroy)"
      "systems (snd (removeEach (systems g) g)) = s # post"
    by (simp_all add: sys)
  then have d: "destroySystems g = removeEach (systems g) g"
    using destroySystems_cases [of g] by auto
  show "fst (destroySystems g) = Some (HookError (ref s) Destroy)" using r d by simp
  show "systems (snd (destroySystems g)) = s # post" using r d by simp
qed

text \<open>
  The claim as stated fails on its own example: a registry of three Systems, the
  \<^verbatim>\<open>destroy\<close> hook of the second throws; the exception leaves \<^verbatim>\<open>destroySystems\<close> and two
  Systems stay registered.
\<close>

theorem destroySystems_counterexample:
  "map ref (systems threeSystems) = [10, 11, 12]
   \<and> map (\<lambda>s. hooks s Destroy) (systems threeSystems) = [Some Returns, Some Throws, None]
   \<and> fst (destroySystems threeSystems) = Some (HookError 11 Destroy)
   \<and> map ref (systems (snd (destroySystems threeSystems))) = [11, 12]
   \<and> length (systems (snd (destroySystems threeSystems))) = 2"
  by code_simp

text \<open>
  The amended claim at \<open>threeSystems\<close>, and at \<open>twoSystems\<close>, where no \<^verbatim>\<open>destroy\<close> hook
  throws and the registry ends empty.
\<close>

theorem destroySystems_empties_unless_destroy_throws_witness:
  "fst (destroySystems threeSystems) = Some (HookError 11 Destroy)
   \<and> map ref (systems (snd (destroySystems threeSystems))) = [11, 12]
   \<and> map ref (systems twoSystems) = [10, 12]
   \<and> fst (destroySystems twoSystems) = None
   \<and> systems (snd (destroySystems twoSystems)) = []"
proof -
  let ?a = "sysA\<lparr>game := Some 7\<rparr>" and ?b = "sysB\<lparr>game := Some 7\<rparr>" and ?c = "sysC\<lparr>game := Some 7\<rparr>"
  let ?g = "twoSystems"
  have sys: "systems threeSystems = [?a] @ ?b # [?c]" by code_simp
  have inst: "\<forall>x\<in>set ([?a] @ [?b]). instanceOf x SystemClass" by code_simp
  have pre: "\<forall>x\<in>set [?a]. hooks x Destroy \<noteq> Some Throws" by code_simp
  have thr: "hooks ?b Destroy = Some Throws" by code_simp
  have rb: "ref ?b = 11" by code_simp
  have refs: "map ref (?b # [?c]) = [11, 12]" by code_simp
  have quiet: "\<forall>s\<in>set (systems ?g). hooks s Destroy \<noteq> Some Throws" by code_simp
  from destroySystems_empties_unless_destroy_throws [of threeSystems "[?a]" ?b "[?c]"]
       sys inst pre thr
  have "fst (destroySystems threeSystems) = Some (HookError (ref ?b) Destroy)
        \<and> systems (snd (destroySystems threeSystems)) = ?b # [?c]"
    by blast
  then have 1: "fst (destroySystems threeSystems) = Some (HookError 11 Destroy)"
      "map ref (systems (snd (destroySystems threeSystems))) = [11, 12]"
    using rb refs by simp_all
  from destroySystems_empties_unless_destroy_throws [of ?g] quiet
  have 2: "fst (destroySystems ?g) = None \<and> systems (snd (destroySystems ?g)) = []"
    by blast
  have 3: "map ref (systems twoSystems) = [10, 12]" by code_simp
  from 1 2 3 show ?thesis by blast
qed

subsection \<open>C1: which exceptions leave the public calls\<close>

lemma triggerPause_returns: "multiScenes g \<noteq> None \<Longrightarrow> fst (triggerPause g) = None"
  by (auto simp: triggerPause_def getAllGameObjects_live)

lemma triggerResume_returns: "multiScenes g \<noteq> None \<Longrightarrow> fst (triggerResume g) = None"
  by (auto simp: triggerResume_def getAllGameObjects_live)

lemma pause_returns:
  assumes "ticker g \<noteq> None" and "multiScenes g \<noteq> None"
  shows "fst (pause g) = None"
proof (cases "playing g")
  case False
  then show ?thesis by (simp add: pause_def)
next
  case True
  obtain t where t: "ticker g = Some t" using assms(1) by auto
  have "pause g = triggerPause (log TickerPause (g\<lparr>playing := False\<rparr>))"
    using True t by (simp add: pause_def)
  moreover have "multiScenes (log TickerPause (g\<lparr>playing := False\<rparr>)) \<noteq> None"
    using assms(2) by (simp add: log_def)
  ultimately show ?thesis by (simp add: triggerPause_returns)
qed

lemma start_returns: "ticker g \<noteq> None \<Longrightarrow> fst (start g) = None"
  by (auto simp: start_def)

lemma resume_returns:
  assumes "ticker g \<noteq> None" and "multiScenes g \<noteq> None"
  shows "fst (resume g) = None"
proof (cases "playing g")
  case True
  then show ?thesis by (simp add: resume_def)
next
  case False
  obtain t where t: "ticker g = Some t" using assms(1) by auto
  obtain r g2 where tr: "triggerResume (log TickerStart g) = (r, g2)" by fastforce
  have "multiScenes (log TickerStart g) \<noteq> None" using assms(2) by (simp add: log_def)
  then have "r = None" using triggerResume_returns [of "log TickerStart g"] tr by simp
  then show ?thesis using False t tr by (simp add: resume_def)
qed

lemma addSystem_throws_iff:
  "(fst (addSystem S g) = Inl e) =
     (S = Function (Inl e)
      \<or> (\<exists>s. resolved S = Some s \<and> ctor s \<notin> ctor ` set (systems g)
              \<and> hooks s Init = Some Throws \<and> e = HookError (ref s) Init))"
proof (cases "resolved S")
  case None
  then consider e' where "S = Function (Inl e')"
    | s where "S = Object s" "\<not> instanceOf s SystemClass"
    using resolved_None_cases by blast
  then show ?thesis
  proof cases
    case 1
    then show ?thesis using None by (auto simp: addSystem_new_throws)
  next
    case 2
    then show ?thesis using None by (simp add: addSystem_not_a_system)
  qed
next
  case (Some s)
  then have nf: "S \<noteq> Function (Inl e)" by auto
  show ?thesis
  proof (cases "ctor s \<in> ctor ` set (systems g)")
    case True
    then show ?thesis using Some nf by (simp add: addSystem_duplicate [OF Some True])
  next
    case False
    show ?thesis
    proof (cases "hooks s Init = Some Throws")
      case True
      then show ?thesis
        using Some nf False by (auto simp: addSystem_init_throws [OF Some False True])
    next
      case init: False
      then show ?thesis
        using Some nf False by (simp add: addSystem_accepted [OF Some False init])
    qed
  qed
qed

text \<open>
  C1, as amended. \<^verbatim>\<open>removeSystem\<close> calls the \<^verbatim>\<open>destroy\<close> hook of the System it resolves its
  argument to outside any \<^verbatim>\<open>try\<close>: when the hook is absent or returns, the entry is removed
  (the others keep their order) and \<^verbatim>\<open>removeSystem\<close> returns; when the hook throws, the
  exception escapes \<^verbatim>\<open>removeSystem\<close> and the registry is unchanged; when the argument
  resolves to nothing, nothing happens. \<^verbatim>\<open>start\<close>, \<^verbatim>\<open>pause\<close> and \<^verbatim>\<open>resume\<close> return normally
  whatever the hooks of the units do, on a game that has its ticker and its secondary-scenes
  array (both are \<^verbatim>\<open>null\<close> only after \<^verbatim>\<open>destroy\<close>). \<^verbatim>\<open>addSystem\<close> throws exactly when the
  constructor it is given throws or when the registration is accepted and the \<^verbatim>\<open>init\<close> hook
  throws; it never throws because of \<^verbatim>\<open>awake\<close>.
\<close>

theorem exceptions_contained_except_init_destroy:
  "(resolvedSystem a g = Some s \<and> hooks s Destroy \<noteq> Some Throws \<longrightarrow>
      fst (removeSystem a g) = None
      \<and> systems (snd (removeSystem a g)) = spliceOne (nat (resolvedIndex a g)) (systems g))
   \<and> (resolvedSystem a g = Some s \<and> hooks s Destroy = Some Throws \<longrightarrow>
      fst (removeSystem a g) = Some (HookError (ref s) Destroy)
      \<and> systems (snd (removeSystem a g)) = systems g)
   \<and> (resolvedSystem a g = None \<longrightarrow> removeSystem a g = (None, g))
   \<and> (ticker g \<noteq> None \<and> multiScenes g \<noteq> None \<longrightarrow>
      fst (start g) = None \<and> fst (pause g) = None \<and> fst (resume g) = None)
   \<and> (fst (addSystem S g) = Inl e) =
       (S = Function (Inl e)
        \<or> (\<exists>n. resolved S = Some n \<and> ctor n \<notin> ctor ` set (systems g)
                \<and> hooks n Init = Some Throws \<and> e = HookError (ref n) Init))"
proof (intro conjI impI)
  assume a: "resolvedSystem a g = Some s \<and> hooks s Destroy \<noteq> Some Throws"
  then have r: "resolvedSystem a g = Some s" and n: "hooks s Destroy \<noteq> Some Throws" by blast+
  show "fst (removeSystem a g) = None" by (simp add: removeSystem_removes [OF r n])
  show "systems (snd (removeSystem a g)) = spliceOne (nat (resolvedIndex a g)) (systems g)"
    by (simp add: removeSystem_removes [OF r n])
next
  assume a: "resolvedSystem a g = Some s \<and> hooks s Destroy = Some Throws"
  then have r: "resolvedSystem a g = Some s" and t: "hooks s Destroy = Some Throws" by blast+
  show "fst (removeSystem a g) = Some (HookError (ref s) Destroy)"
    by (simp add: removeSystem_throws [OF r t])
  show "systems (snd (removeSystem a g)) = systems g"
    by (simp add: removeSystem_throws [OF r t])
next
  assume "resolvedSystem a g = None"
  then show "removeSystem a g = (None, g)" by (rule removeSystem_nothing)
next
  assume a: "ticker g \<noteq> None \<and> multiScenes g \<noteq> None"
  then show "fst (start g) = None" by (simp add: start_returns)
  from a show "fst (pause g) = None" by (simp add: pause_returns)
  from a show "fst (resume g) = None" by (simp add: resume_returns)
next
  show "(fst (addSystem S g) = Inl e) =
       (S = Function (Inl e)
        \<or> (\<exists>n. resolved S = Some n \<and> ctor n \<notin> ctor ` set (systems g)
                \<and> hooks n Init = Some Throws \<and> e = HookError (ref n) Init))"
    by (rule addSystem_throws_iff)
qed

text \<open>
  The claim as stated fails at the registry of \<open>threeSystems\<close>: the \<^verbatim>\<open>destroy\<close> hook of
  System 11 throws, the exception leaves \<^verbatim>\<open>removeSystem\<close> and System 11 stays registered.
\<close>

theorem removeSystem_counterexample:
  "map ref (systems threeSystems) = [10, 11, 12]
   \<and> map_option ref (resolvedSystem (Obj sysB) threeSystems) = Some 11
   \<and> hooks sysB Destroy = Some Throws
   \<and> fst (removeSystem (Obj sysB) threeSystems) = Some (HookError 11 Destroy)
   \<and> map ref (systems (snd (removeSystem (Obj sysB) threeSystems))) = [10, 11, 12]"
  by code_simp

text \<open>
  The amended claim at \<open>threeSystems\<close>: removing System 10 (its hook returns) and System 11
  (its hook throws), the run-state calls on a game some of whose hooks throw, and the
  registration of a System whose \<^verbatim>\<open>awake\<close> throws.
\<close>

theorem exceptions_contained_except_init_destroy_witness:
  "fst (removeSystem (Fn 100) threeSystems) = None
   \<and> map ref (systems (snd (removeSystem (Fn 100) threeSystems))) = [11, 12]
   \<and> fst (removeSystem (Str ''B'') threeSystems) = Some (HookError 11 Destroy)
   \<and> systems (snd (removeSystem (Str ''B'') threeSystems)) = systems threeSystems
   \<and> removeSystem (Str ''nobody'') threeSystems = (None, threeSystems)
   \<and> fst (start populated) = None \<and> fst (pause (snd (start populated))) = None
   \<and> fst (resume populated) = None
   \<and> fst (addSystem (Object faultyAwake) threeSystems) \<noteq> Inl (HookError 15 Awake)"
proof -
  let ?a = "sysA\<lparr>game := Some 7\<rparr>" and ?b = "sysB\<lparr>game := Some 7\<rparr>"
  have ra: "resolvedSystem (Fn 100) threeSystems = Some ?a" by code_simp
  have ha: "hooks ?a Destroy \<noteq> Some Throws" by code_simp
  have ia: "map ref (spliceOne (nat (resolvedIndex (Fn 100) threeSystems)) (systems threeSystems))
      = [11, 12]" by code_simp
  have rb: "resolvedSystem (Str ''B'') threeSystems = Some ?b" by code_simp
  have hb: "hooks ?b Destroy = Some Throws" by code_simp
  have fb: "ref ?b = 11" by code_simp
  have rn: "resolvedSystem (Str ''nobody'') threeSystems = None" by code_simp
  have l1: "ticker populated \<noteq> None \<and> multiScenes populated \<noteq> None" by code_simp
  have l2: "ticker (snd (start populated)) \<noteq> None \<and> multiScenes (snd (start populated)) \<noteq> None"
    by code_simp
  have na: "resolved (Object faultyAwake) = Some faultyAwake" by code_simp
  have ni: "hooks faultyAwake Init \<noteq> Some Throws" by code_simp
  from exceptions_contained_except_init_destroy [of "Fn 100" threeSystems ?a] ra ha
  have 1: "fst (removeSystem (Fn 100) threeSystems) = None"
    "systems (snd (removeSystem (Fn 100) threeSystems))
       = spliceOne (nat (resolvedIndex (Fn 100) threeSystems)) (systems threeSystems)"
    by blast+
  from exceptions_contained_except_init_destroy [of "Str ''B''" threeSystems ?b] rb hb
  have 2: "fst (removeSystem (Str ''B'') threeSystems) = Some (HookError (ref ?b) Destroy)"
    "systems (snd (removeSystem (Str ''B'') threeSystems)) = systems threeSystems"
    by blast+
  from exceptions_contained_except_init_destroy [of "Str ''nobody''" threeSystems] rn
  have 3: "removeSystem (Str ''nobody'') threeSystems = (None, threeSystems)" by blast
  from exceptions_contained_except_init_destroy [of _ populated] l1
  have 4: "fst (start populated) = None" "fst (resume populated) = None" by blast+
  from exceptions_contained_except_init_destroy [of _ "snd (start populated)"] l2
  have 5: "fst (pause (snd (start populated))) = None" by blast
  have 6: "fst (addSystem (Object faultyAwake) threeSystems) \<noteq> Inl (HookError 15 Awake)"
    using exceptions_contained_except_init_destroy
            [of _ threeSystems _ "Object faultyAwake" "HookError 15 Awake"] na ni
    by auto
  from 1 2 3 4 5 6 ia fb show ?thesis by simp
qed

subsection \<open>C7: the steps of an accepted registration\<close>

text \<open>
  C7, as amended. A registration that is accepted (the argument is taken for a System \<open>s\<close>
  whose constructor no registered System has) and whose \<^verbatim>\<open>init\<close> hook is absent or
  returns runs these steps in this order: the back-reference \<^verbatim>\<open>game\<close> is set, \<^verbatim>\<open>init\<close> is
  called if present, then \<^verbatim>\<open>setSystemObserver\<close> and \<^verbatim>\<open>initObserver\<close>, then \<^verbatim>\<open>awake\<close> if
  present, a failure of which is reported on the console and goes no further; the instance,
  with its back-reference, is appended to the registry and returned, also when \<^verbatim>\<open>awake\<close>
  has thrown. When the \<^verbatim>\<open>init\<close> hook throws, the exception escapes \<^verbatim>\<open>addSystem\<close> after the
  call of \<^verbatim>\<open>init\<close>: no observer is set, \<^verbatim>\<open>awake\<close> is not called, nothing is registered.
\<close>

theorem addSystem_steps_in_order:
  "(resolved S = Some s \<and> ctor s \<notin> ctor ` set (systems g) \<and> hooks s Init \<noteq> Some Throws \<longrightarrow>
      fst (addSystem S g) = Inr (Some (s\<lparr>game := Some (gameId g)\<rparr>))
      \<and> systems (snd (addSystem S g)) = systems g @ [s\<lparr>game := Some (gameId g)\<rparr>]
      \<and> newEvents g (snd (addSystem S g)) =
          (if hooks s Init = None then [] else [Invoke (ref s) Init])
          @ [SetSystemObserver (ref s) (ctor s), InitObserver (ctor s)]
          @ (case hooks s Awake of
               None \<Rightarrow> []
             | Some Returns \<Rightarrow> [Invoke (ref s) Awake]
             | Some Throws \<Rightarrow>
                 [Invoke (ref s) Awake,
                  ConsoleError (systemName s @ '' awake error'') (HookError (ref s) Awake)]))
   \<and> (resolved S = Some s \<and> ctor s \<notin> ctor ` set (systems g) \<and> hooks s Init = Some Throws \<longrightarrow>
      fst (addSystem S g) = Inl (HookError (ref s) Init)
      \<and> systems (snd (addSystem S g)) = systems g
      \<and> newEvents g (snd (addSystem S g)) = [Invoke (ref s) Init])"
proof (intro conjI impI)
  assume a: "resolved S = Some s \<and> ctor s \<notin> ctor ` set (systems g)
      \<and> hooks s Init \<noteq> Some Throws"
  then have r: "resolved S = Some s" and n: "ctor s \<notin> ctor ` set (systems g)"
    and i: "hooks s Init \<noteq> Some Throws" by blast+
  note acc = addSystem_accepted [OF r n i]
  show "fst (addSystem S g) = Inr (Some (s\<lparr>game := Some (gameId g)\<rparr>))" by (simp add: acc)
  show "systems (snd (addSystem S g)) = systems g @ [s\<lparr>game := Some (gameId g)\<rparr>]"
    by (simp add: acc)
  show "newEvents g (snd (addSystem S g)) =
          (if hooks s Init = None then [] else [Invoke (ref s) Init])
          @ [SetSystemObserver (ref s) (ctor s), InitObserver (ctor s)]
          @ (case hooks s Awake of
               None \<Rightarrow> []
             | Some Returns \<Rightarrow> [Invoke (ref s) Awake]
             | Some Throws \<Rightarrow>
                 [Invoke (ref s) Awake,
                  ConsoleError (systemName s @ '' awake error'') (HookError (ref s) Awake)])"
    by (simp add: acc newEvents_def guarded_cases cong: option.case_cong outcome.case_cong)
next
  assume a: "resolved S = Some s \<and> ctor s \<notin> ctor ` set (systems g)
      \<and> hooks s Init = Some Throws"
  then have r: "resolved S = Some s" and n: "ctor s \<notin> ctor ` set (systems g)"
    and i: "hooks s Init = Some Throws" by blast+
  note thr = addSystem_init_throws [OF r n i]
  show "fst (addSystem S g) = Inl (HookError (ref s) Init)" by (simp add: thr)
  show "systems (snd (addSystem S g)) = systems g" by (simp add: thr)
  show "newEvents g (snd (addSystem S g)) = [Invoke (ref s) Init]"
    by (simp add: thr newEvents_def)
qed

text \<open>
  The claim as stated fails for an accepted registration whose \<^verbatim>\<open>init\<close> hook throws: the
  System is taken for one, no System of its constructor is registered, and yet it is
  neither appended nor returned, and no observer is wired.
\<close>

theorem addSystem_counterexample:
  "resolved (Object faultyInit) = Some faultyInit
   \<and> systems freshGame = []
   \<and> hooks faultyInit Init = Some Throws
   \<and> fst (addSystem (Object faultyInit) freshGame) = Inl (HookError 16 Init)
   \<and> systems (snd (addSystem (Object faultyInit) freshGame)) = []
   \<and> newEvents freshGame (snd (addSystem (Object faultyInit) freshGame)) = [Invoke 16 Init]"
  by code_simp

text \<open>
  The amended claim at the scenario of the spec, a System whose \<^verbatim>\<open>awake\<close> throws, given as
  a constructor, and at the System whose \<^verbatim>\<open>init\<close> throws.
\<close>

theorem addSystem_steps_in_order_witness:
  "map_option ref (projr (fst (addSystem (Function (Inr faultyAwake)) freshGame))) = Some 15
   \<and> map_option game (projr (fst (addSystem (Function (Inr faultyAwake)) freshGame))) = Some (Some 7)
   \<and> map ref (systems (snd (addSystem (Function (Inr faultyAwake)) freshGame))) = [15]
   \<and> newEvents freshGame (snd (addSystem (Function (Inr faultyAwake)) freshGame)) =
       [Invoke 15 Init, SetSystemObserver 15 104, InitObserver 104, Invoke 15 Awake,
        ConsoleError ''FaultySystem awake error'' (HookError 15 Awake)]
   \<and> fst (addSystem (Object faultyInit) freshGame) = Inl (HookError 16 Init)
   \<and> systems (snd (addSystem (Object faultyInit) freshGame)) = systems freshGame"
proof -
  have r: "resolved (Function (Inr faultyAwake)) = Some faultyAwake" by code_simp
  have n: "ctor faultyAwake \<notin> ctor ` set (systems freshGame)" by code_simp
  have i: "hooks faultyAwake Init \<noteq> Some Throws" by code_simp
  have i0: "hooks faultyAwake Init = Some Returns" by code_simp
  have a0: "hooks faultyAwake Awake = Some Throws" by code_simp
  have v: "ref faultyAwake = 15" "ctor faultyAwake = 104" "gameId freshGame = 7"
      "systemName faultyAwake = ''FaultySystem''"
    by code_simp+
  have r2: "resolved (Object faultyInit) = Some faultyInit" by code_simp
  have n2: "ctor faultyInit \<notin> ctor ` set (systems freshGame)" by code_simp
  have i2: "hooks faultyInit Init = Some Throws" by code_simp
  have v2: "ref faultyInit = 16" by code_simp
  from addSystem_steps_in_order [of "Function (Inr faultyAwake)" faultyAwake freshGame] r n i
  have 1: "fst (addSystem (Function (Inr faultyAwake)) freshGame)
             = Inr (Some (faultyAwake\<lparr>game := Some (gameId freshGame)\<rparr>))"
      "systems (snd (addSystem (Function (Inr faultyAwake)) freshGame))
             = systems freshGame @ [faultyAwake\<lparr>game := Some (gameId freshGame)\<rparr>]"
      "newEvents freshGame (snd (addSystem (Function (Inr faultyAwake)) freshGame)) =
          (if hooks faultyAwake Init = None then [] else [Invoke (ref faultyAwake) Init])
          @ [SetSystemObserver (ref faultyAwake) (ctor faultyAwake), InitObserver (ctor faultyAwake)]
          @ (case hooks faultyAwake Awake of
               None \<Rightarrow> []
             | Some Returns \<Rightarrow> [Invoke (ref faultyAwake) Awake]
             | Some Throws \<Rightarrow>
                 [Invoke (ref faultyAwake) Awake,
                  ConsoleError (systemName faultyAwake @ '' awake error'')
                    (HookError (ref faultyAwake) Awake)])"
    by blast+
  have e: "systems freshGame = []" by code_simp
  from addSystem_steps_in_order [of "Object faultyInit" faultyInit freshGame] r2 n2 i2
  have 2: "fst (addSystem (Object faultyInit) freshGame) = Inl (HookError (ref faultyInit) Init)"
      "systems (snd (addSystem (Object faultyInit) freshGame)) = systems freshGame"
    by blast+
  show ?thesis
    unfolding 1 2 by (simp add: i0 a0 v v2 e)
qed

subsection \<open>C6: \<^verbatim>\<open>destroy\<close> called twice\<close>

lemma destroySystems_emptied:
  "fst (destroySystems g) = None \<Longrightarrow> systems (snd (destroySystems g)) = []"
  using destroySystems_cases [of g] by auto

lemma destroy_completed:
  assumes "fst (destroy g) = None"
  shows "ticker (snd (destroy g)) = None" and "scene (snd (destroy g)) = None"
    and "canvas (snd (destroy g)) = None" and "multiScenes (snd (destroy g)) = None"
    and "systems (snd (destroy g)) = []" and "\<not> playing (snd (destroy g))"
proof -
  let ?g1 = "snd (pause (log RemoveAllListeners g))"
  from destroy_cases [of g] assms obtain s where
    d: "fst (destroySystems (log (SceneDestroy s) ?g1)) = None"
       "destroy g = (None, (snd (destroySystems (log (SceneDestroy s) ?g1)))
                         \<lparr>ticker := None, scene := None, canvas := None, multiScenes := None\<rparr>)"
    by fastforce
  show "ticker (snd (destroy g)) = None" "scene (snd (destroy g)) = None"
    "canvas (snd (destroy g)) = None" "multiScenes (snd (destroy g)) = None"
    by (simp_all add: d(2))
  show "systems (snd (destroy g)) = []"
    using destroySystems_emptied [OF d(1)] by (simp add: d(2))
  have "playing (snd (destroySystems (log (SceneDestroy s) ?g1))) = playing ?g1"
    by (simp add: destroySystems_playing log_def)
  then show "\<not> playing (snd (destroy g))"
    using pause_playing [of "log RemoveAllListeners g"] by (simp add: d(2))
qed

lemma destroy_destroyed:
  assumes "\<not> playing g" and "scene g = None"
  shows "destroy g = (Some (TypeError ''Cannot read properties of null (reading destroy)''),
                      g\<lparr>trace := trace g @ [RemoveAllListeners]\<rparr>)"
proof -
  have "pause (log RemoveAllListeners g) = (None, log RemoveAllListeners g)"
    using assms(1) by (simp add: pause_def log_def)
  then show ?thesis using assms(2) by (simp add: destroy_def log_def)
qed

text \<open>
  C6, as amended. \<^verbatim>\<open>destroy\<close> is not idempotent. After a \<^verbatim>\<open>destroy\<close> that has completed,
  the ticker, the primary scene, the canvas and the secondary scenes are absent, the
  registry is empty and the game is not playing. A second \<^verbatim>\<open>destroy\<close> fails: after
  \<^verbatim>\<open>removeAllListeners\<close> and a \<^verbatim>\<open>pause\<close> that does nothing, \<^verbatim>\<open>this.scene.destroy()\<close> is a call
  on \<^verbatim>\<open>null\<close> and throws a TypeError. It leaves every field of the game as it was, so the
  cleared fields remain absent.
\<close>

theorem destroy_twice_throws:
  "fst (destroy g) = None \<longrightarrow>
     ticker (snd (destroy g)) = None \<and> scene (snd (destroy g)) = None
     \<and> canvas (snd (destroy g)) = None \<and> multiScenes (snd (destroy g)) = None
     \<and> systems (snd (destroy g)) = [] \<and> \<not> playing (snd (destroy g))
     \<and> destroy (snd (destroy g)) =
         (Some (TypeError ''Cannot read properties of null (reading destroy)''),
          (snd (destroy g))\<lparr>trace := trace (snd (destroy g)) @ [RemoveAllListeners]\<rparr>)"
proof
  assume a: "fst (destroy g) = None"
  note c = destroy_completed [OF a]
  have "destroy (snd (destroy g)) =
         (Some (TypeError ''Cannot read properties of null (reading destroy)''),
          (snd (destroy g))\<lparr>trace := trace (snd (destroy g)) @ [RemoveAllListeners]\<rparr>)"
    using c(6) c(2) by (rule destroy_destroyed)
  with c show "ticker (snd (destroy g)) = None \<and> scene (snd (destroy g)) = None
     \<and> canvas (snd (destroy g)) = None \<and> multiScenes (snd (destroy g)) = None
     \<and> systems (snd (destroy g)) = [] \<and> \<not> playing (snd (destroy g))
     \<and> destroy (snd (destroy g)) =
         (Some (TypeError ''Cannot read properties of null (reading destroy)''),
          (snd (destroy g))\<lparr>trace := trace (snd (destroy g)) @ [RemoveAllListeners]\<rparr>)"
    by blast
qed

text \<open>
  The claim as stated fails on a game fresh from its constructor: the first \<^verbatim>\<open>destroy\<close>
  completes, the second throws.
\<close>

theorem destroy_counterexample:
  "fst (destroy freshGame) = None
   \<and> fst (destroy (snd (destroy freshGame)))
       = Some (TypeError ''Cannot read properties of null (reading destroy)'')"
  by code_simp

text \<open>
  The amended claim at \<open>twoSystems\<close>, started: the first \<^verbatim>\<open>destroy\<close> pauses the game and
  destroys both Systems, the second throws and changes no field.
\<close>

theorem destroy_twice_throws_witness:
  "fst (destroy (snd (start twoSystems))) = None
   \<and> newEvents (snd (start twoSystems)) (snd (destroy (snd (start twoSystems)))) =
       [RemoveAllListeners, TickerPause, Invoke 12 OnPause,
        ConsoleError ''C, onPause error'' (HookError 12 OnPause),
        SceneDestroy \<lparr>sceneName = ''scene'', gameObjects = []\<rparr>, Invoke 10 Destroy]
   \<and> ticker (snd (destroy (snd (start twoSystems)))) = None
   \<and> scene (snd (destroy (snd (start twoSystems)))) = None
   \<and> multiScenes (snd (destroy (snd (start twoSystems)))) = None
   \<and> systems (snd (destroy (snd (start twoSystems)))) = []
   \<and> fst (destroy (snd (destroy (snd (start twoSystems)))))
       = Some (TypeError ''Cannot read properties of null (reading destroy)'')
   \<and> snd (destroy (snd (destroy (snd (start twoSystems)))))
       = (snd (destroy (snd (start twoSystems))))
           \<lparr>trace := trace (snd (destroy (snd (start twoSystems)))) @ [RemoveAllListeners]\<rparr>"
proof -
  have h: "fst (destroy (snd (start twoSystems))) = None" by code_simp
  have e: "newEvents (snd (start twoSystems)) (snd (destroy (snd (start twoSystems)))) =
       [RemoveAllListeners, TickerPause, Invoke 12 OnPause,
        ConsoleError ''C, onPause error'' (HookError 12 OnPause),
        SceneDestroy \<lparr>sceneName = ''scene'', gameObjects = []\<rparr>, Invoke 10 Destroy]"
    by code_simp
  from destroy_twice_throws [of "snd (start twoSystems)"] h e show ?thesis by simp
qed

subsection \<open>C4: started exactly once\<close>



end
